theory Spec2Isabelle
  imports Main
begin

section \<open>Data model of \<open>pyee/base.py\<close>\<close>

text \<open>
  A callable that the application hands to the emitter is known to the emitter only by
  its identity: Python compares and hashes functions by identity, and the registry uses
  the callable as a dictionary key. The identity is a natural number.
\<close>

type_synonym hid = nat

text \<open>
  Python values that reach the emitter as arguments of \<open>emit\<close>, and the exceptions that
  leave it. \<open>VExc e\<close> is a value for which \<open>isinstance(v, Exception)\<close> holds. \<open>KeyError\<close>
  carries the missing key, as Python's does. \<open>PyeeError v\<close> is the exception
  \<open>PyeeError(f"Uncaught, unspecified 'error' event: {v}")\<close>: the message is determined by the
  payload \<open>v\<close>, which is what the constructor keeps. \<open>UserError\<close> is any exception of the
  application.
\<close>

datatype val = VNone | VBool bool | VInt int | VStr string | VFun hid | VExc exn
and exn = KeyError val | PyeeError val | UserError string

text \<open>The positional arguments \<open>*args\<close> and the keyword arguments \<open>**kwargs\<close> of a call.\<close>

type_synonym call_args = "val list \<times> (string \<times> val) list"

text \<open>
  What the registry stores as the value \<open>v\<close> of an entry: for \<open>on\<close> the callable itself, for
  \<open>once\<close> the closure \<open>g\<close>, which captures the event name and the original callable \<open>f\<close>.
\<close>

datatype invocable = Plain hid | OnceWrapper string hid

text \<open>
  An \<open>OrderedDict\<close> is an association list in insertion order; \<open>self._events\<close> is a \<open>dict\<close>
  whose order is never observed (\<open>event_names\<close> returns a \<open>set\<close>), hence a map.
\<close>

type_synonym odict = "(hid \<times> invocable) list"
type_synonym registry = "string \<rightharpoonup> odict"

text \<open>
  The emitter together with what surrounds it: \<open>events\<close> is \<open>self._events\<close>; \<open>calls\<close> is the
  log, in order, of the calls of application callables made by the operation at hand
  (by \<open>_emit_run\<close> and by the closure of \<open>once\<close>); \<open>user\<close> is the state of the application.
  The lock is not a field: the model is of one thread, in which every
  \<open>with self._lock\<close> block is entered with the lock free.
\<close>

record 'u world =
  events :: registry
  calls :: "(hid \<times> call_args) list"
  user :: 'u

text \<open>
  The body of an application callable is a parameter of the model: given its arguments,
  the registry and the application state, it returns normally (\<open>None\<close>) or raises, and
  leaves a registry and an application state behind. A body that calls back into the
  emitter is a body whose result registry differs from its input; what happens inside
  such a call is part of the body and is not logged. The log is out of the body's reach.
  A body that does not return is not in the model.
\<close>

type_synonym 'u behaviour =
  "hid \<Rightarrow> call_args \<Rightarrow> registry \<times> 'u \<Rightarrow> exn option \<times> registry \<times> 'u"

definition init :: "'u \<Rightarrow> 'u world" where
  "init u = \<lparr>events = Map.empty, calls = [], user = u\<rparr>"

subsection \<open>\<open>OrderedDict\<close> operations used by the emitter\<close>

definition od_keys :: "odict \<Rightarrow> hid list" where
  "od_keys d = map fst d"

definition od_values :: "odict \<Rightarrow> invocable list" where
  "od_values d = map snd d"

text \<open>\<open>d[k] = v\<close>: an existing key keeps its position, a new key goes to the end.\<close>

fun od_set :: "hid \<Rightarrow> invocable \<Rightarrow> odict \<Rightarrow> odict" where
  "od_set k v [] = [(k, v)]"
| "od_set k v (p # ps) = (if fst p = k then (k, v) # ps else p # od_set k v ps)"

text \<open>\<open>d.pop(k)\<close>: \<open>None\<close> stands for the \<open>KeyError\<close> of a missing key.\<close>

fun od_pop :: "hid \<Rightarrow> odict \<Rightarrow> odict option" where
  "od_pop k [] = None"
| "od_pop k (p # ps) =
     (if fst p = k then Some ps
      else (case od_pop k ps of None \<Rightarrow> None | Some ps' \<Rightarrow> Some (p # ps')))"

text \<open>\<open>self._events.get(event, OrderedDict())\<close>.\<close>

definition events_get :: "'u world \<Rightarrow> string \<Rightarrow> odict" where
  "events_get w event = (case events w event of None \<Rightarrow> [] | Some d \<Rightarrow> d)"

section \<open>The operations of \<open>EventEmitter\<close>\<close>

text \<open>
  Every operation returns the outcome (\<open>Inl\<close> an exception, \<open>Inr\<close> the returned value)
  together with the world it leaves: an exception does not undo what was done before it.
\<close>

definition event_names :: "'u world \<Rightarrow> string set" where
  "event_names w = dom (events w)"

definition listeners :: "'u world \<Rightarrow> string \<Rightarrow> hid list" where
  "listeners w event = od_keys (events_get w event)"

text \<open>\<open>_remove_listener\<close>: the naked removal.\<close>

definition remove_listener_naked :: "string \<Rightarrow> hid \<Rightarrow> 'u world \<Rightarrow> (exn + unit) \<times> 'u world" where
  "remove_listener_naked event f w =
     (case events w event of
        None \<Rightarrow> (Inl (KeyError (VStr event)), w)
      | Some d \<Rightarrow>
          (case od_pop f d of
             None \<Rightarrow> (Inl (KeyError (VFun f)), w)
           | Some d' \<Rightarrow>
               (if length d' = 0
                then (Inr (), w\<lparr>events := (events w)(event := None)\<rparr>)
                else (Inr (), w\<lparr>events := (events w)(event \<mapsto> d')\<rparr>))))"

definition remove_listener :: "string \<Rightarrow> hid \<Rightarrow> 'u world \<Rightarrow> (exn + unit) \<times> 'u world" where
  "remove_listener event f w = remove_listener_naked event f w"

definition remove_all_listeners :: "string option \<Rightarrow> 'u world \<Rightarrow> 'u world" where
  "remove_all_listeners event w =
     (case event of
        Some ev \<Rightarrow> w\<lparr>events := (events w)(ev \<mapsto> [])\<rparr>
      | None \<Rightarrow> w\<lparr>events := Map.empty\<rparr>)"

text \<open>The call \<open>f(*args, **kwargs)\<close> of an application callable, logged.\<close>

definition call_user :: "'u behaviour \<Rightarrow> hid \<Rightarrow> call_args \<Rightarrow> 'u world \<Rightarrow> exn option \<times> 'u world" where
  "call_user beh f args w =
     (case beh f args (events w, user w) of
        (r, reg, u) \<Rightarrow> (r, \<lparr>events = reg, calls = calls w @ [(f, args)], user = u\<rparr>))"

text \<open>
  The closure \<open>g\<close> that \<open>once(event, f)\<close> builds: if \<open>f\<close> is no longer registered under the
  event the call returns at once; otherwise the entry is removed (the naked removal)
  and then \<open>f\<close> is called with the arguments of the call.
\<close>

definition once_g :: "'u behaviour \<Rightarrow> string \<Rightarrow> hid \<Rightarrow> call_args \<Rightarrow> 'u world \<Rightarrow> exn option \<times> 'u world" where
  "once_g beh event f args w =
     (if event \<in> dom (events w) \<and> f \<in> set (od_keys (events_get w event))
      then (case remove_listener_naked event f w of
              (Inl e, w') \<Rightarrow> (Some e, w')
            | (Inr _, w') \<Rightarrow> call_user beh f args w')
      else (None, w))"

text \<open>
  \<open>_emit_run\<close>: the call of a stored invocable, which is an application callable or a
  closure of \<open>once\<close>. What the invocable returns is dropped.
\<close>

fun emit_run :: "'u behaviour \<Rightarrow> invocable \<Rightarrow> call_args \<Rightarrow> 'u world \<Rightarrow> exn option \<times> 'u world" where
  "emit_run beh (Plain f) args w = call_user beh f args w"
| "emit_run beh (OnceWrapper event f) args w = once_g beh event f args w"

text \<open>The loop of \<open>_call_handlers\<close> over the snapshot \<open>funcs\<close>, with the flag \<open>handled\<close>.\<close>

fun run_funcs :: "'u behaviour \<Rightarrow> invocable list \<Rightarrow> call_args \<Rightarrow> bool \<Rightarrow> 'u world \<Rightarrow> (exn + bool) \<times> 'u world" where
  "run_funcs beh [] args handled w = (Inr handled, w)"
| "run_funcs beh (f # fs) args handled w =
     (case emit_run beh f args w of
        (Some e, w') \<Rightarrow> (Inl e, w')
      | (None, w') \<Rightarrow> run_funcs beh fs args True w')"

definition call_handlers :: "'u behaviour \<Rightarrow> string \<Rightarrow> call_args \<Rightarrow> 'u world \<Rightarrow> (exn + bool) \<times> 'u world" where
  "call_handlers beh event args w = run_funcs beh (od_values (events_get w event)) args False w"

text \<open>\<open>_emit_handle_potential_error\<close>: the exception it raises, if any.\<close>

definition emit_handle_potential_error :: "string \<Rightarrow> val \<Rightarrow> exn option" where
  "emit_handle_potential_error event error =
     (if event = ''error''
      then (case error of VExc e \<Rightarrow> Some e | _ \<Rightarrow> Some (PyeeError error))
      else None)"

definition emit :: "'u behaviour \<Rightarrow> string \<Rightarrow> call_args \<Rightarrow> 'u world \<Rightarrow> (exn + bool) \<times> 'u world" where
  "emit beh event args w =
     (case call_handlers beh event args w of
        (Inl e, w') \<Rightarrow> (Inl e, w')
      | (Inr handled, w') \<Rightarrow>
          (if \<not> handled
           then (case emit_handle_potential_error event
                        (case fst args of [] \<Rightarrow> VNone | a # _ \<Rightarrow> a) of
                   Some e \<Rightarrow> (Inl e, w')
                 | None \<Rightarrow> (Inr handled, w'))
           else (Inr handled, w')))"

text \<open>
  \<open>_add_event_handler\<close>: \<open>new_listener\<close> is emitted with \<open>(event, k)\<close> first; the entry is
  written only if that emission returns.
\<close>

definition add_event_handler :: "'u behaviour \<Rightarrow> string \<Rightarrow> hid \<Rightarrow> invocable \<Rightarrow> 'u world \<Rightarrow> (exn + unit) \<times> 'u world" where
  "add_event_handler beh event k v w =
     (case emit beh ''new_listener'' ([VStr event, VFun k], []) w of
        (Inl e, w') \<Rightarrow> (Inl e, w')
      | (Inr _, w') \<Rightarrow>
          (Inr (), w'\<lparr>events := (events w')(event \<mapsto> od_set k v (events_get w' event))\<rparr>))"

definition add_listener :: "'u behaviour \<Rightarrow> string \<Rightarrow> hid \<Rightarrow> 'u world \<Rightarrow> (exn + hid) \<times> 'u world" where
  "add_listener beh event f w =
     (case add_event_handler beh event f (Plain f) w of
        (Inl e, w') \<Rightarrow> (Inl e, w')
      | (Inr _, w') \<Rightarrow> (Inr f, w'))"

text \<open>
  \<open>listens_to(event)\<close> returns a decorator and touches nothing; \<open>listens_to\<close> below is
  that decorator applied to \<open>f\<close>. \<open>on(event, f)\<close> with \<open>f\<close> given is \<open>add_listener\<close>; with
  \<open>f\<close> omitted it returns the decorator of \<open>listens_to\<close>.
\<close>

definition listens_to :: "'u behaviour \<Rightarrow> string \<Rightarrow> hid \<Rightarrow> 'u world \<Rightarrow> (exn + hid) \<times> 'u world" where
  "listens_to beh event f w =
     (case add_event_handler beh event f (Plain f) w of
        (Inl e, w') \<Rightarrow> (Inl e, w')
      | (Inr _, w') \<Rightarrow> (Inr f, w'))"

definition on :: "'u behaviour \<Rightarrow> string \<Rightarrow> hid \<Rightarrow> 'u world \<Rightarrow> (exn + hid) \<times> 'u world" where
  "on beh event f w = add_listener beh event f w"

text \<open>\<open>once(event, f)\<close>: the stored invocable is the closure \<open>g\<close>, the key is \<open>f\<close>.\<close>

definition once :: "'u behaviour \<Rightarrow> string \<Rightarrow> hid \<Rightarrow> 'u world \<Rightarrow> (exn + hid) \<times> 'u world" where
  "once beh event f w =
     (case add_event_handler beh event f (OnceWrapper event f) w of
        (Inl e, w') \<Rightarrow> (Inl e, w')
      | (Inr _, w') \<Rightarrow> (Inr f, w'))"

section \<open>Well-formed collections and sample callables\<close>

text \<open>
  The callable an invocable ends up calling: itself for \<open>on\<close>, the captured \<open>f\<close> for the
  closure of \<open>once\<close>.
\<close>

fun target :: "invocable \<Rightarrow> hid" where
  "target (Plain f) = f"
| "target (OnceWrapper event f) = f"

text \<open>
  What the three callers of \<open>_add_event_handler\<close> maintain for the collection of \<open>event\<close>:
  a key occurs once (it is a dictionary), and the value under key \<open>k\<close> is \<open>k\<close> itself or the
  \<open>once\<close> closure made for \<open>event\<close> and \<open>k\<close>.
\<close>

definition wf_od :: "string \<Rightarrow> odict \<Rightarrow> bool" where
  "wf_od event d \<longleftrightarrow>
     distinct (od_keys d) \<and> (\<forall>p \<in> set d. snd p = Plain (fst p) \<or> snd p = OnceWrapper event (fst p))"

text \<open>The same for every event of a registry, and the callables that keep it so.\<close>

definition wf_registry :: "registry \<Rightarrow> bool" where
  "wf_registry reg \<longleftrightarrow> (\<forall>event d. reg event = Some d \<longrightarrow> wf_od event d)"

definition wf_behaviour :: "'u behaviour \<Rightarrow> bool" where
  "wf_behaviour beh \<longleftrightarrow>
     (\<forall>h a reg u. wf_registry reg \<longrightarrow> wf_registry (fst (snd (beh h a (reg, u)))))"

text \<open>
  No callable registers \<open>f\<close> under the event: whenever \<open>f\<close> is among the listeners of the
  event after the body of a callable, it was among them before.
\<close>

definition never_registers :: "'u behaviour \<Rightarrow> string \<Rightarrow> hid \<Rightarrow> bool" where
  "never_registers beh event f \<longleftrightarrow>
     (\<forall>h a reg u.
        f \<in> set (od_keys (case fst (snd (beh h a (reg, u))) event of None \<Rightarrow> [] | Some d \<Rightarrow> d))
        \<longrightarrow> f \<in> set (od_keys (case reg event of None \<Rightarrow> [] | Some d \<Rightarrow> d)))"

text \<open>A callable that returns and touches nothing.\<close>

definition quiet :: "unit behaviour" where
  "quiet f args st = (None, st)"

text \<open>A callable that raises and touches nothing.\<close>

definition failing :: "unit behaviour" where
  "failing f args st = (Some (UserError ''boom''), st)"

text \<open>
  A callable that writes down, as the application state, the listeners of event \<open>x\<close>
  that it finds in the registry when it is called.
\<close>

definition observer :: "hid list behaviour" where
  "observer f args st =
     (None, fst st, (case fst st ''x'' of None \<Rightarrow> [] | Some d \<Rightarrow> od_keys d))"

text \<open>Sample emitters: two listeners of \<open>x\<close>; one listener of \<open>x\<close>; one listener of \<open>new_listener\<close>.\<close>

definition two_plain :: "unit world" where
  "two_plain = \<lparr>events = [''x'' \<mapsto> [(0, Plain 0), (1, Plain 1)]], calls = [], user = ()\<rparr>"

definition one_plain :: "unit world" where
  "one_plain = \<lparr>events = [''x'' \<mapsto> [(0, Plain 0)]], calls = [], user = ()\<rparr>"

definition hooked :: "'u \<Rightarrow> 'u world" where
  "hooked u = \<lparr>events = [''new_listener'' \<mapsto> [(0, Plain 0)]], calls = [], user = u\<rparr>"

text \<open>
  Callables of which the one with identity \<open>0\<close> returns and every other raises; an emitter
  with two listeners of \<open>new_listener\<close>; an emitter with one \<open>once\<close> listener of
  \<open>new_listener\<close>.
\<close>

definition second_fails :: "unit behaviour" where
  "second_fails f args st = (if f = 0 then None else Some (UserError ''boom''), st)"

definition two_hooks :: "unit world" where
  "two_hooks = \<lparr>events = [''new_listener'' \<mapsto> [(0, Plain 0), (2, Plain 2)]], calls = [], user = ()\<rparr>"

definition once_hook :: "unit world" where
  "once_hook = \<lparr>events = [''new_listener'' \<mapsto> [(0, OnceWrapper ''new_listener'' 0)]],
                 calls = [], user = ()\<rparr>"

text \<open>
  An emitter with a listener of \<open>x\<close> registered by \<open>on\<close> and one registered by \<open>once\<close>, and
  the same emitter after \<open>emit("x", 1)\<close>.
\<close>

definition with_company :: "unit world" where
  "with_company =
     \<lparr>events = [''x'' \<mapsto> [(0, Plain 0), (3, OnceWrapper ''x'' 3)]], calls = [], user = ()\<rparr>"

definition after_firing :: "unit world" where
  "after_firing =
     \<lparr>events = [''x'' \<mapsto> [(0, Plain 0)]],
      calls = [(0, ([VInt 1], [])), (3, ([VInt 1], []))], user = ()\<rparr>"

section \<open>Facts about the collections\<close>

lemmas emitter_defs =
  init_def od_keys_def od_values_def events_get_def event_names_def listeners_def
  remove_listener_naked_def remove_listener_def remove_all_listeners_def call_user_def
  call_handlers_def emit_handle_potential_error_def emit_def add_event_handler_def
  add_listener_def listens_to_def on_def once_def once_g_def

lemma od_pop_None_iff: "od_pop k d = None \<longleftrightarrow> k \<notin> set (od_keys d)"
  by (induction d) (auto simp: od_keys_def split: option.splits)

lemma od_set_keys_mem: "k \<in> set (od_keys d) \<Longrightarrow> od_keys (od_set k v d) = od_keys d"
  by (induction d) (auto simp: od_keys_def)

lemma od_set_keys_new: "k \<notin> set (od_keys d) \<Longrightarrow> od_keys (od_set k v d) = od_keys d @ [k]"
  by (induction d) (auto simp: od_keys_def)

lemma od_set_lookup: "map_of (od_set k v d) k = Some v"
  by (induction d) auto

lemma od_set_mem: "(k, v) \<in> set (od_set k v d)"
  by (induction d) auto

lemma od_set_set: "set (od_set k v d) \<subseteq> insert (k, v) (set d)"
  by (induction d) auto

lemma singleton_od:
  "od_keys d = [k] \<Longrightarrow> map_of d k = Some v \<Longrightarrow> d = [(k, v)]"
  by (cases d) (auto simp: od_keys_def)

section \<open>Facts about dispatch and registration\<close>

text \<open>The flag returned by the loop is set exactly when the snapshot is not empty.\<close>

lemma run_funcs_handled:
  "run_funcs beh fs args h w = (Inr b, w') \<Longrightarrow> b = (h \<or> fs \<noteq> [])"
proof (induction fs arbitrary: h w)
  case Nil
  then show ?case by simp
next
  case (Cons g gs)
  then show ?case
    by (cases "emit_run beh g args w") (auto split: option.splits)
qed

text \<open>A registration that returns has written its entry.\<close>

lemma add_event_handler_stored:
  "add_event_handler beh event k v w = (Inr u, w1) \<Longrightarrow>
   \<exists>d. events w1 event = Some d \<and> map_of d k = Some v \<and> (k, v) \<in> set d"
  by (auto simp: add_event_handler_def od_set_lookup od_set_mem split: prod.splits sum.splits)

lemma wf_od_set:
  "wf_od event d \<Longrightarrow> v = Plain k \<or> v = OnceWrapper event k \<Longrightarrow> wf_od event (od_set k v d)"
proof -
  assume wf: "wf_od event d" and v: "v = Plain k \<or> v = OnceWrapper event k"
  have "distinct (od_keys (od_set k v d))"
  proof (cases "k \<in> set (od_keys d)")
    case True
    with wf show ?thesis by (simp add: od_set_keys_mem wf_od_def)
  next
    case False
    with wf show ?thesis by (simp add: od_set_keys_new wf_od_def)
  qed
  moreover have "\<forall>p \<in> set (od_set k v d). snd p = Plain (fst p) \<or> snd p = OnceWrapper event (fst p)"
    using od_set_set [of k v d] wf v by (auto simp: wf_od_def)
  ultimately show ?thesis by (simp add: wf_od_def)
qed

text \<open>The loop over a concatenated snapshot.\<close>

lemma run_funcs_append:
  "run_funcs beh (xs @ ys) args h w =
     (case run_funcs beh xs args h w of
        (Inl e, w') \<Rightarrow> (Inl e, w')
      | (Inr h', w') \<Rightarrow> run_funcs beh ys args h' w')"
proof (induction xs arbitrary: h w)
  case Nil
  then show ?case by simp
next
  case (Cons g gs)
  then show ?case
    by (cases "emit_run beh g args w") (auto split: option.splits)
qed

lemma call_user_calls:
  "call_user beh f args w = (r, w') \<Longrightarrow> calls w' = calls w @ [(f, args)]"
  by (auto simp: call_user_def split: prod.splits)

lemma remove_listener_naked_calls:
  "remove_listener_naked event f w = (r, w') \<Longrightarrow> calls w' = calls w"
  by (auto simp: remove_listener_naked_def split: option.splits if_splits)

lemma emit_run_calls:
  "emit_run beh g args w = (r, w') \<Longrightarrow>
   calls w' = calls w \<or> calls w' = calls w @ [(target g, args)]"
proof (cases g)
  case (Plain f)
  assume "emit_run beh g args w = (r, w')"
  with Plain show ?thesis by (simp add: call_user_calls)
next
  case (OnceWrapper ev f)
  assume run: "emit_run beh g args w = (r, w')"
  show ?thesis
  proof (cases "ev \<in> dom (events w) \<and> f \<in> set (od_keys (events_get w ev))")
    case False
    with run OnceWrapper show ?thesis by (auto simp: once_g_def)
  next
    case True
    obtain q w1 where rm: "remove_listener_naked ev f w = (q, w1)"
      by (cases "remove_listener_naked ev f w")
    show ?thesis
    proof (cases q)
      case (Inl e)
      with run OnceWrapper True rm remove_listener_naked_calls [OF rm] show ?thesis
        by (auto simp: once_g_def)
    next
      case (Inr u)
      with run OnceWrapper True rm have "call_user beh f args w1 = (r, w')"
        by (auto simp: once_g_def)
      from call_user_calls [OF this] remove_listener_naked_calls [OF rm] OnceWrapper
      show ?thesis by simp
    qed
  qed
qed

lemma run_funcs_calls_other:
  "\<forall>g \<in> set fs. target g \<noteq> f \<Longrightarrow> run_funcs beh fs args h w = (r, w') \<Longrightarrow>
   \<exists>cs. calls w' = calls w @ cs \<and> filter (\<lambda>c. fst c = f) cs = []"
proof (induction fs arbitrary: h w)
  case Nil
  then show ?case by simp
next
  case (Cons g gs)
  obtain q w1 where step: "emit_run beh g args w = (q, w1)"
    by (cases "emit_run beh g args w")
  from Cons.prems have tg: "target g \<noteq> f" by simp
  from emit_run_calls [OF step] tg
  obtain c1 where c1: "calls w1 = calls w @ c1" "filter (\<lambda>c. fst c = f) c1 = []"
    by fastforce
  show ?case
  proof (cases q)
    case (Some e)
    with Cons.prems step have "w' = w1" by simp
    with c1 show ?thesis by blast
  next
    case None
    with Cons.prems step have "run_funcs beh gs args True w1 = (r, w')" by simp
    from Cons.IH [OF _ this] Cons.prems
    obtain c2 where "calls w' = calls w1 @ c2" "filter (\<lambda>c. fst c = f) c2 = []" by auto
    with c1 have "calls w' = calls w @ (c1 @ c2) \<and> filter (\<lambda>c. fst c = f) (c1 @ c2) = []"
      by simp
    then show ?thesis by blast
  qed
qed

lemma run_funcs_calls_once:
  assumes run: "run_funcs beh (pre @ Plain f # post) args h w = (r, w')"
    and other: "\<forall>g \<in> set pre \<union> set post. target g \<noteq> f"
  shows "\<exists>cs. calls w' = calls w @ cs \<and>
           (case r of
              Inr b \<Rightarrow> filter (\<lambda>c. fst c = f) cs = [(f, args)]
            | Inl e \<Rightarrow> length (filter (\<lambda>c. fst c = f) cs) \<le> 1)"
proof -
  obtain q1 w1 where r1: "run_funcs beh pre args h w = (q1, w1)"
    by (cases "run_funcs beh pre args h w")
  from run_funcs_calls_other [OF _ r1] other
  obtain c1 where c1: "calls w1 = calls w @ c1" "filter (\<lambda>c. fst c = f) c1 = []" by auto
  show ?thesis
  proof (cases q1)
    case (Inl e)
    with run r1 have "r = Inl e" "w' = w1" by (simp_all add: run_funcs_append)
    with c1 show ?thesis by auto
  next
    case (Inr h1)
    with run r1 have r2: "run_funcs beh (Plain f # post) args h1 w1 = (r, w')"
      by (simp add: run_funcs_append)
    obtain q2 w2 where cu: "call_user beh f args w1 = (q2, w2)"
      by (cases "call_user beh f args w1")
    from call_user_calls [OF cu] c1
    have c2: "calls w2 = calls w @ (c1 @ [(f, args)])" by simp
    show ?thesis
    proof (cases q2)
      case (Some e)
      with r2 cu have "r = Inl e" "w' = w2" by simp_all
      with c2 c1 have "calls w' = calls w @ (c1 @ [(f, args)])
        \<and> (case r of
              Inr b \<Rightarrow> filter (\<lambda>c. fst c = f) (c1 @ [(f, args)]) = [(f, args)]
            | Inl e \<Rightarrow> length (filter (\<lambda>c. fst c = f) (c1 @ [(f, args)])) \<le> 1)"
        by simp
      then show ?thesis by blast
    next
      case None
      with r2 cu have r3: "run_funcs beh post args True w2 = (r, w')" by simp
      from run_funcs_calls_other [OF _ r3] other
      obtain c3 where c3: "calls w' = calls w2 @ c3" "filter (\<lambda>c. fst c = f) c3 = []" by auto
      from c1 c2 c3 have "calls w' = calls w @ (c1 @ [(f, args)] @ c3)
        \<and> (case r of
              Inr b \<Rightarrow> filter (\<lambda>c. fst c = f) (c1 @ [(f, args)] @ c3) = [(f, args)]
            | Inl e \<Rightarrow> length (filter (\<lambda>c. fst c = f) (c1 @ [(f, args)] @ c3)) \<le> 1)"
        by (simp split: sum.splits)
      then show ?thesis by blast
    qed
  qed
qed

lemma wf_od_values_split:
  assumes wf: "wf_od event d" and mem: "(f, Plain f) \<in> set d"
  shows "\<exists>pre post. od_values d = pre @ Plain f # post
           \<and> (\<forall>g \<in> set pre \<union> set post. target g \<noteq> f)"
proof -
  from mem obtain xs ys where d: "d = xs @ (f, Plain f) # ys"
    by (auto dest: split_list)
  from wf d have nf: "\<forall>p \<in> set xs \<union> set ys. fst p \<noteq> f"
    by (auto simp: wf_od_def od_keys_def)
  have tg: "\<forall>p \<in> set xs \<union> set ys. target (snd p) = fst p"
  proof
    fix p assume "p \<in> set xs \<union> set ys"
    with wf d have "snd p = Plain (fst p) \<or> snd p = OnceWrapper event (fst p)"
      by (auto simp: wf_od_def)
    then show "target (snd p) = fst p" by auto
  qed
  from nf tg have "\<forall>p \<in> set xs \<union> set ys. target (snd p) \<noteq> f"
    by simp
  then have "\<forall>g \<in> set (map snd xs) \<union> set (map snd ys). target g \<noteq> f"
    by fastforce
  moreover from d have "od_values d = map snd xs @ Plain f # map snd ys"
    by (simp add: od_values_def)
  ultimately show ?thesis by blast
qed

text \<open>Registration and the listeners it leaves.\<close>

lemma emit_no_listeners:
  "events w event = None \<Longrightarrow> event \<noteq> ''error'' \<Longrightarrow> emit beh event args w = (Inr False, w)"
  by (simp add: emit_def call_handlers_def events_get_def od_values_def
      emit_handle_potential_error_def)

lemma listeners_after_insert:
  "listeners (w'\<lparr>events := (events w')(event \<mapsto> od_set k v (events_get w' event))\<rparr>) event =
     (if k \<in> set (listeners w' event) then listeners w' event else listeners w' event @ [k])"
  by (simp add: listeners_def events_get_def od_set_keys_mem od_set_keys_new)

lemma listeners_after_insert_other:
  "e \<noteq> event \<Longrightarrow>
   listeners (w'\<lparr>events := (events w')(event \<mapsto> d)\<rparr>) e = listeners w' e"
  by (simp add: listeners_def events_get_def)

lemma add_event_handler_listeners:
  assumes "add_event_handler beh event k v w = (Inr u, w1)"
  shows "let w' = snd (emit beh ''new_listener'' ([VStr event, VFun k], []) w) in
           listeners w1 event =
             (if k \<in> set (listeners w' event) then listeners w' event
              else listeners w' event @ [k])
           \<and> map_of (events_get w1 event) k = Some v
           \<and> (\<forall>e. e \<noteq> event \<longrightarrow> listeners w1 e = listeners w' e)"
proof -
  obtain q w' where em: "emit beh ''new_listener'' ([VStr event, VFun k], []) w = (q, w')"
    by (cases "emit beh ''new_listener'' ([VStr event, VFun k], []) w")
  with assms obtain b where q: "q = Inr b"
    by (cases q) (auto simp: add_event_handler_def)
  with assms em
  have w1: "w1 = w'\<lparr>events := (events w')(event \<mapsto> od_set k v (events_get w' event))\<rparr>"
    by (simp add: add_event_handler_def)
  have "map_of (events_get w1 event) k = Some v"
    by (simp add: w1 events_get_def od_set_lookup)
  then show ?thesis
    by (simp add: em Let_def) (simp add: w1 listeners_after_insert listeners_after_insert_other)
qed

text \<open>Registration in front of a single \<open>new_listener\<close> listener registered with \<open>on\<close>.\<close>

lemma emit_single_hook:
  assumes hook: "events w ''new_listener'' = Some [(h, Plain h)]"
  shows "emit beh ''new_listener'' args w =
           (case beh h args (events w, user w) of
              (Some e, reg, u) \<Rightarrow>
                (Inl e, \<lparr>events = reg, calls = calls w @ [(h, args)], user = u\<rparr>)
            | (None, reg, u) \<Rightarrow>
                (Inr True, \<lparr>events = reg, calls = calls w @ [(h, args)], user = u\<rparr>))"
  using hook
  by (simp add: emit_def call_handlers_def events_get_def od_values_def call_user_def
      split: prod.splits option.splits)

lemma add_event_handler_single_hook:
  assumes hook: "events w ''new_listener'' = Some [(h, Plain h)]"
  shows "add_event_handler beh event k v w =
           (case beh h ([VStr event, VFun k], []) (events w, user w) of
              (Some e, reg, u) \<Rightarrow>
                (Inl e, \<lparr>events = reg,
                          calls = calls w @ [(h, ([VStr event, VFun k], []))], user = u\<rparr>)
            | (None, reg, u) \<Rightarrow>
                (Inr (), \<lparr>events = reg(event \<mapsto>
                                    od_set k v (case reg event of None \<Rightarrow> [] | Some d \<Rightarrow> d)),
                          calls = calls w @ [(h, ([VStr event, VFun k], []))], user = u\<rparr>))"
  by (simp add: add_event_handler_def emit_single_hook [OF hook] events_get_def
      split: prod.splits option.splits)

text \<open>Callables that leave the registry alone leave it alone through the whole loop.\<close>

lemma call_user_neutral:
  "\<forall>h a reg u. fst (snd (beh h a (reg, u))) = reg \<Longrightarrow>
   call_user beh f args w = (r, w') \<Longrightarrow> events w' = events w"
proof -
  assume n: "\<forall>h a reg u. fst (snd (beh h a (reg, u))) = reg"
    and c: "call_user beh f args w = (r, w')"
  obtain q reg u where b: "beh f args (events w, user w) = (q, reg, u)"
    by (cases "beh f args (events w, user w)")
  from n have "fst (snd (beh f args (events w, user w))) = events w" by blast
  with b have "reg = events w" by simp
  with b c show ?thesis by (auto simp: call_user_def)
qed

lemma run_funcs_plain_neutral:
  assumes plain: "\<forall>g \<in> set fs. \<exists>h. g = Plain h"
    and neutral: "\<forall>h a reg u. fst (snd (beh h a (reg, u))) = reg"
    and run: "run_funcs beh fs args hf w = (r, w')"
  shows "events w' = events w"
  using plain run
proof (induction fs arbitrary: hf w)
  case Nil
  then show ?case by simp
next
  case (Cons g gs)
  from Cons.prems obtain h where g: "g = Plain h" by auto
  obtain q w1 where cu: "call_user beh h args w = (q, w1)"
    by (cases "call_user beh h args w")
  from call_user_neutral [OF neutral cu] have e1: "events w1 = events w" .
  show ?case
  proof (cases q)
    case (Some e)
    with Cons.prems g cu have "w' = w1" by simp
    with e1 show ?thesis by simp
  next
    case None
    with Cons.prems g cu have "run_funcs beh gs args True w1 = (r, w')" by simp
    from Cons.IH [OF _ this] Cons.prems e1 show ?thesis by simp
  qed
qed

section \<open>The closure of \<open>once\<close> on a registered listener\<close>

lemma od_pop_filter:
  "distinct (od_keys d) \<Longrightarrow> k \<in> set (od_keys d) \<Longrightarrow>
   od_pop k d = Some (filter (\<lambda>p. fst p \<noteq> k) d)"
proof (induction d)
  case Nil
  then show ?case by (simp add: od_keys_def)
next
  case (Cons p ps)
  show ?case
  proof (cases "fst p = k")
    case True
    with Cons.prems have "k \<notin> fst ` set ps" by (simp add: od_keys_def)
    then have "\<forall>q \<in> set ps. fst q \<noteq> k" by force
    then have "filter (\<lambda>q. fst q \<noteq> k) ps = ps" by (simp add: filter_id_conv)
    with True show ?thesis by simp
  next
    case False
    with Cons.prems have "distinct (od_keys ps)" "k \<in> set (od_keys ps)"
      by (auto simp: od_keys_def)
    from Cons.IH [OF this] False show ?thesis by simp
  qed
qed

text \<open>The naked removal of a registered key, in a collection with distinct keys.\<close>

lemma remove_listener_naked_registered:
  assumes dist: "distinct (listeners w event)" and mem: "f \<in> set (listeners w event)"
  shows "fst (remove_listener_naked event f w) = Inr ()"
    and "listeners (snd (remove_listener_naked event f w)) event
           = filter (\<lambda>k. k \<noteq> f) (listeners w event)"
    and "f \<notin> set (listeners (snd (remove_listener_naked event f w)) event)"
    and "calls (snd (remove_listener_naked event f w)) = calls w"
    and "user (snd (remove_listener_naked event f w)) = user w"
    and "e' \<noteq> event \<Longrightarrow> events (snd (remove_listener_naked event f w)) e' = events w e'"
proof -
  from mem obtain d where d: "events w event = Some d"
    by (cases "events w event") (auto simp: listeners_def events_get_def od_keys_def)
  with dist mem have dd: "distinct (od_keys d)" "f \<in> set (od_keys d)"
    by (simp_all add: listeners_def events_get_def)
  from od_pop_filter [OF dd] have pop: "od_pop f d = Some (filter (\<lambda>p. fst p \<noteq> f) d)" .
  have keys: "od_keys (filter (\<lambda>p. fst p \<noteq> f) d) = filter (\<lambda>k. k \<noteq> f) (od_keys d)"
    by (simp add: od_keys_def filter_map comp_def)
  show "fst (remove_listener_naked event f w) = Inr ()"
    by (simp add: remove_listener_naked_def d pop)
  show l: "listeners (snd (remove_listener_naked event f w)) event
           = filter (\<lambda>k. k \<noteq> f) (listeners w event)"
    using keys by (auto simp: remove_listener_naked_def d pop listeners_def events_get_def od_keys_def)
  show "f \<notin> set (listeners (snd (remove_listener_naked event f w)) event)"
    by (simp add: l)
  show "calls (snd (remove_listener_naked event f w)) = calls w"
    by (simp add: remove_listener_naked_def d pop)
  show "user (snd (remove_listener_naked event f w)) = user w"
    by (simp add: remove_listener_naked_def d pop)
  show "e' \<noteq> event \<Longrightarrow> events (snd (remove_listener_naked event f w)) e' = events w e'"
    by (simp add: remove_listener_naked_def d pop)
qed

lemma once_g_registered:
  assumes dist: "distinct (listeners w event)" and mem: "f \<in> set (listeners w event)"
  shows "once_g beh event f args w =
           call_user beh f args (snd (remove_listener_naked event f w))"
proof -
  from mem have dom: "event \<in> dom (events w)"
    by (cases "events w event") (auto simp: listeners_def events_get_def od_keys_def)
  from remove_listener_naked_registered(1) [OF dist mem]
  obtain w' where "remove_listener_naked event f w = (Inr (), w')"
    by (cases "remove_listener_naked event f w") auto
  with dom mem show ?thesis by (simp add: once_g_def listeners_def)
qed

section \<open>Well-formedness is kept by every operation\<close>

text \<open>
  The emitter starts well-formed, and every operation keeps it well-formed as long as
  the application callables do, which they do when they change the registry through
  the operations only.
\<close>

lemma od_pop_set: "od_pop k d = Some d' \<Longrightarrow> set d' \<subseteq> set d"
  by (induction d arbitrary: d') (auto split: if_splits option.splits)

lemma od_pop_distinct:
  "od_pop k d = Some d' \<Longrightarrow> distinct (od_keys d) \<Longrightarrow> distinct (od_keys d')"
proof (induction d arbitrary: d')
  case Nil
  then show ?case by simp
next
  case (Cons p ps)
  show ?case
  proof (cases "fst p = k")
    case True
    with Cons.prems show ?thesis by (simp add: od_keys_def)
  next
    case False
    with Cons.prems obtain ps' where ps': "od_pop k ps = Some ps'" "d' = p # ps'"
      by (auto split: option.splits)
    from Cons.prems have "distinct (od_keys ps)" by (simp add: od_keys_def)
    from Cons.IH [OF ps'(1) this] have "distinct (od_keys ps')" .
    moreover from od_pop_set [OF ps'(1)] Cons.prems have "fst p \<notin> set (od_keys ps')"
      by (auto simp: od_keys_def)
    ultimately show ?thesis using ps' by (simp add: od_keys_def)
  qed
qed

lemma wf_od_pop: "wf_od event d \<Longrightarrow> od_pop k d = Some d' \<Longrightarrow> wf_od event d'"
  using od_pop_set [of k d d'] od_pop_distinct [of k d d'] by (auto simp: wf_od_def)

lemma wf_od_empty: "wf_od event []"
  by (simp add: wf_od_def od_keys_def)

lemma wf_registry_get: "wf_registry (events w) \<Longrightarrow> wf_od event (events_get w event)"
  by (auto simp: wf_registry_def events_get_def wf_od_empty split: option.splits)

lemma init_wf: "wf_registry (events (init u))"
  by (simp add: wf_registry_def init_def)

lemma remove_all_listeners_wf:
  "wf_registry (events w) \<Longrightarrow> wf_registry (events (remove_all_listeners event w))"
  by (cases event) (auto simp: wf_registry_def remove_all_listeners_def wf_od_empty)

lemma remove_listener_naked_wf:
  assumes wf: "wf_registry (events w)" and rm: "remove_listener_naked event f w = (r, w')"
  shows "wf_registry (events w')"
proof (cases "events w event")
  case None
  with rm wf show ?thesis by (simp add: remove_listener_naked_def)
next
  case (Some d)
  show ?thesis
  proof (cases "od_pop f d")
    case None
    with Some rm wf show ?thesis by (simp add: remove_listener_naked_def)
  next
    case (Some d')
    from wf \<open>events w event = Some d\<close> have "wf_od event d" by (simp add: wf_registry_def)
    from wf_od_pop [OF this Some] have "wf_od event d'" .
    with wf rm Some \<open>events w event = Some d\<close> show ?thesis
      by (auto simp: remove_listener_naked_def wf_registry_def split: if_splits)
  qed
qed

lemma call_user_wf:
  assumes b: "wf_behaviour beh" and wf: "wf_registry (events w)"
    and c: "call_user beh f args w = (r, w')"
  shows "wf_registry (events w')"
proof -
  from b wf have "wf_registry (fst (snd (beh f args (events w, user w))))"
    unfolding wf_behaviour_def by blast
  with c show ?thesis by (auto simp: call_user_def split: prod.splits)
qed

lemma emit_run_wf:
  assumes b: "wf_behaviour beh" and wf: "wf_registry (events w)"
    and run: "emit_run beh g args w = (r, w')"
  shows "wf_registry (events w')"
proof (cases g)
  case (Plain f)
  with run call_user_wf [OF b wf] show ?thesis by simp
next
  case (OnceWrapper ev f)
  show ?thesis
  proof (cases "ev \<in> dom (events w) \<and> f \<in> set (od_keys (events_get w ev))")
    case False
    with run OnceWrapper wf show ?thesis by (auto simp: once_g_def)
  next
    case True
    obtain q w1 where rm: "remove_listener_naked ev f w = (q, w1)"
      by (cases "remove_listener_naked ev f w")
    from remove_listener_naked_wf [OF wf rm] have wf1: "wf_registry (events w1)" .
    show ?thesis
    proof (cases q)
      case (Inl e)
      with run OnceWrapper True rm wf1 show ?thesis by (auto simp: once_g_def)
    next
      case (Inr u)
      with run OnceWrapper True rm have "call_user beh f args w1 = (r, w')"
        by (auto simp: once_g_def)
      from call_user_wf [OF b wf1 this] show ?thesis .
    qed
  qed
qed

lemma run_funcs_wf:
  assumes b: "wf_behaviour beh"
  shows "wf_registry (events w) \<Longrightarrow> run_funcs beh fs args h w = (r, w') \<Longrightarrow>
         wf_registry (events w')"
proof (induction fs arbitrary: h w)
  case Nil
  then show ?case by simp
next
  case (Cons g gs)
  obtain q w1 where step: "emit_run beh g args w = (q, w1)"
    by (cases "emit_run beh g args w")
  from emit_run_wf [OF b Cons.prems(1) step] have wf1: "wf_registry (events w1)" .
  show ?case
  proof (cases q)
    case (Some e)
    with Cons.prems step wf1 show ?thesis by simp
  next
    case None
    with Cons.prems step have "run_funcs beh gs args True w1 = (r, w')" by simp
    from Cons.IH [OF wf1 this] show ?thesis .
  qed
qed

lemma emit_wf:
  assumes b: "wf_behaviour beh" and wf: "wf_registry (events w)"
    and em: "emit beh event args w = (r, w')"
  shows "wf_registry (events w')"
proof -
  obtain q w1 where ch: "run_funcs beh (od_values (events_get w event)) args False w = (q, w1)"
    by (cases "run_funcs beh (od_values (events_get w event)) args False w")
  from run_funcs_wf [OF b wf ch] have wf1: "wf_registry (events w1)" .
  from em ch have "w' = w1"
    by (cases q) (auto simp: emit_def call_handlers_def split: if_splits option.splits)
  with wf1 show ?thesis by simp
qed

lemma add_event_handler_wf:
  assumes b: "wf_behaviour beh" and wf: "wf_registry (events w)"
    and v: "v = Plain k \<or> v = OnceWrapper event k"
    and reg: "add_event_handler beh event k v w = (r, w')"
  shows "wf_registry (events w')"
proof -
  obtain q w1 where em: "emit beh ''new_listener'' ([VStr event, VFun k], []) w = (q, w1)"
    by (cases "emit beh ''new_listener'' ([VStr event, VFun k], []) w")
  from emit_wf [OF b wf em] have wf1: "wf_registry (events w1)" .
  show ?thesis
  proof (cases q)
    case (Inl e)
    with reg em wf1 show ?thesis by (simp add: add_event_handler_def)
  next
    case (Inr h)
    from wf_od_set [OF wf_registry_get [OF wf1] v]
    have "wf_od event (od_set k v (events_get w1 event))" .
    with reg em Inr wf1 show ?thesis
      by (auto simp: add_event_handler_def wf_registry_def split: if_splits)
  qed
qed

lemma registration_wf:
  assumes b: "wf_behaviour beh" and wf: "wf_registry (events w)"
  shows "wf_registry (events (snd (on beh event f w)))"
    and "wf_registry (events (snd (once beh event f w)))"
proof -
  obtain r1 w1 where a1: "add_event_handler beh event f (Plain f) w = (r1, w1)"
    by (cases "add_event_handler beh event f (Plain f) w")
  from add_event_handler_wf [OF b wf _ a1] have "wf_registry (events w1)" by simp
  with a1 show "wf_registry (events (snd (on beh event f w)))"
    by (cases r1) (simp_all add: on_def add_listener_def)
  obtain r2 w2 where a2: "add_event_handler beh event f (OnceWrapper event f) w = (r2, w2)"
    by (cases "add_event_handler beh event f (OnceWrapper event f) w")
  from add_event_handler_wf [OF b wf _ a2] have "wf_registry (events w2)" by simp
  with a2 show "wf_registry (events (snd (once beh event f w)))"
    by (cases r2) (simp_all add: once_def)
qed

section \<open>One-shot listeners among other listeners\<close>

lemma wf_od_values_split_any:
  assumes wf: "wf_od event d" and mem: "(f, v) \<in> set d"
  shows "\<exists>pre post. od_values d = pre @ v # post
           \<and> (\<forall>g \<in> set pre \<union> set post. target g \<noteq> f)"
proof -
  from mem obtain xs ys where d: "d = xs @ (f, v) # ys"
    by (auto dest: split_list)
  from wf d have nf: "\<forall>p \<in> set xs \<union> set ys. fst p \<noteq> f"
    by (auto simp: wf_od_def od_keys_def)
  have tg: "\<forall>p \<in> set xs \<union> set ys. target (snd p) = fst p"
  proof
    fix p assume "p \<in> set xs \<union> set ys"
    with wf d have "snd p = Plain (fst p) \<or> snd p = OnceWrapper event (fst p)"
      by (auto simp: wf_od_def)
    then show "target (snd p) = fst p" by auto
  qed
  from nf tg have "\<forall>p \<in> set xs \<union> set ys. target (snd p) \<noteq> f"
    by simp
  then have "\<forall>g \<in> set (map snd xs) \<union> set (map snd ys). target g \<noteq> f"
    by fastforce
  moreover from d have "od_values d = map snd xs @ v # map snd ys"
    by (simp add: od_values_def)
  ultimately show ?thesis by blast
qed

lemma wf_od_absent_targets:
  assumes wf: "wf_od event d" and absent: "f \<notin> set (od_keys d)"
  shows "\<forall>g \<in> set (od_values d). target g \<noteq> f"
proof
  fix g assume "g \<in> set (od_values d)"
  then obtain p where p: "p \<in> set d" "g = snd p" by (auto simp: od_values_def)
  with wf have "snd p = Plain (fst p) \<or> snd p = OnceWrapper event (fst p)"
    by (auto simp: wf_od_def)
  then have "target (snd p) = fst p" by auto
  moreover from p absent have "fst p \<noteq> f" by (auto simp: od_keys_def)
  ultimately show "target g \<noteq> f" using p by simp
qed

lemma run_funcs_calls_at_most_once:
  assumes run: "run_funcs beh (pre @ g # post) args h w = (r, w')"
    and other: "\<forall>g' \<in> set pre \<union> set post. target g' \<noteq> f"
  shows "\<exists>cs. calls w' = calls w @ cs \<and> length (filter (\<lambda>c. fst c = f) cs) \<le> 1"
proof -
  obtain q1 w1 where r1: "run_funcs beh pre args h w = (q1, w1)"
    by (cases "run_funcs beh pre args h w")
  from run_funcs_calls_other [OF _ r1] other
  obtain c1 where c1: "calls w1 = calls w @ c1" "filter (\<lambda>c. fst c = f) c1 = []" by auto
  show ?thesis
  proof (cases q1)
    case (Inl e)
    with run r1 have "w' = w1" by (simp add: run_funcs_append)
    with c1 have "calls w' = calls w @ c1 \<and> length (filter (\<lambda>c. fst c = f) c1) \<le> 1"
      by simp
    then show ?thesis by blast
  next
    case (Inr h1)
    with run r1 have r2: "run_funcs beh (g # post) args h1 w1 = (r, w')"
      by (simp add: run_funcs_append)
    obtain q2 w2 where st: "emit_run beh g args w1 = (q2, w2)"
      by (cases "emit_run beh g args w1")
    from emit_run_calls [OF st]
    obtain c2 where c2: "calls w2 = calls w1 @ c2" "length c2 \<le> 1"
      by (cases "calls w2 = calls w1") auto
    have "length (filter (\<lambda>c. fst c = f) c2) \<le> length c2"
      by (rule length_filter_le)
    with c2(2) have f2: "length (filter (\<lambda>c. fst c = f) c2) \<le> 1"
      by linarith
    show ?thesis
    proof (cases q2)
      case (Some e)
      with r2 st have "w' = w2" by simp
      with c1 c2 have "calls w' = calls w @ (c1 @ c2)
          \<and> length (filter (\<lambda>c. fst c = f) (c1 @ c2)) \<le> 1"
        using f2 by simp
      then show ?thesis by blast
    next
      case None
      with r2 st have r3: "run_funcs beh post args True w2 = (r, w')" by simp
      from run_funcs_calls_other [OF _ r3] other
      obtain c3 where c3: "calls w' = calls w2 @ c3" "filter (\<lambda>c. fst c = f) c3 = []" by auto
      from c1 c2 c3 have "calls w' = calls w @ (c1 @ c2 @ c3)
          \<and> length (filter (\<lambda>c. fst c = f) (c1 @ c2 @ c3)) \<le> 1"
        using f2 by simp
      then show ?thesis by blast
    qed
  qed
qed

text \<open>A listener that no callable registers stays unregistered through the loop.\<close>

lemma call_user_keeps_absent:
  assumes nr: "never_registers beh event f"
    and absent: "f \<notin> set (listeners w event)"
    and c: "call_user beh h args w = (r, w')"
  shows "f \<notin> set (listeners w' event)"
proof -
  obtain q reg u where b: "beh h args (events w, user w) = (q, reg, u)"
    by (cases "beh h args (events w, user w)")
  from nr have "f \<in> set (od_keys (case fst (snd (beh h args (events w, user w))) event of
                                     None \<Rightarrow> [] | Some d \<Rightarrow> d))
        \<longrightarrow> f \<in> set (od_keys (case events w event of None \<Rightarrow> [] | Some d \<Rightarrow> d))"
    unfolding never_registers_def by blast
  with b absent have "f \<notin> set (od_keys (case reg event of None \<Rightarrow> [] | Some d \<Rightarrow> d))"
    by (auto simp: listeners_def events_get_def)
  with b c show ?thesis by (auto simp: call_user_def listeners_def events_get_def)
qed

lemma remove_listener_naked_keeps_absent:
  assumes absent: "f \<notin> set (listeners w event)"
    and rm: "remove_listener_naked ev k w = (r, w')"
  shows "f \<notin> set (listeners w' event)"
proof (cases "events w ev")
  case None
  with rm absent show ?thesis by (simp add: remove_listener_naked_def)
next
  case (Some d)
  show ?thesis
  proof (cases "od_pop k d")
    case None
    with Some rm absent show ?thesis by (simp add: remove_listener_naked_def)
  next
    case (Some d')
    from od_pop_set [OF Some] have sub: "set (od_keys d') \<subseteq> set (od_keys d)"
      by (auto simp: od_keys_def)
    from rm Some \<open>events w ev = Some d\<close>
    have w': "events w' = (events w)(ev := None) \<or> events w' = (events w)(ev \<mapsto> d')"
      by (auto simp: remove_listener_naked_def split: if_splits)
    show ?thesis
    proof (cases "event = ev")
      case False
      with w' have "events w' event = events w event" by auto
      with absent show ?thesis by (simp add: listeners_def events_get_def)
    next
      case True
      with w' have "events_get w' event = [] \<or> events_get w' event = d'"
        by (auto simp: events_get_def)
      moreover from True \<open>events w ev = Some d\<close> absent have "f \<notin> set (od_keys d)"
        by (simp add: listeners_def events_get_def)
      ultimately show ?thesis using sub by (auto simp: listeners_def od_keys_def)
    qed
  qed
qed

lemma emit_run_keeps_absent:
  assumes nr: "never_registers beh event f"
    and absent: "f \<notin> set (listeners w event)"
    and run: "emit_run beh g args w = (r, w')"
  shows "f \<notin> set (listeners w' event)"
proof (cases g)
  case (Plain h)
  with run call_user_keeps_absent [OF nr absent] show ?thesis by simp
next
  case (OnceWrapper ev k)
  show ?thesis
  proof (cases "ev \<in> dom (events w) \<and> k \<in> set (od_keys (events_get w ev))")
    case False
    with run OnceWrapper absent show ?thesis by (auto simp: once_g_def)
  next
    case True
    obtain q w1 where rm: "remove_listener_naked ev k w = (q, w1)"
      by (cases "remove_listener_naked ev k w")
    from remove_listener_naked_keeps_absent [OF absent rm]
    have a1: "f \<notin> set (listeners w1 event)" .
    show ?thesis
    proof (cases q)
      case (Inl e)
      with run OnceWrapper True rm a1 show ?thesis by (auto simp: once_g_def)
    next
      case (Inr u)
      with run OnceWrapper True rm have "call_user beh k args w1 = (r, w')"
        by (auto simp: once_g_def)
      from call_user_keeps_absent [OF nr a1 this] show ?thesis .
    qed
  qed
qed

lemma run_funcs_keeps_absent:
  assumes nr: "never_registers beh event f"
  shows "f \<notin> set (listeners w event) \<Longrightarrow> run_funcs beh fs args h w = (r, w') \<Longrightarrow>
         f \<notin> set (listeners w' event)"
proof (induction fs arbitrary: h w)
  case Nil
  then show ?case by simp
next
  case (Cons g gs)
  obtain q w1 where step: "emit_run beh g args w = (q, w1)"
    by (cases "emit_run beh g args w")
  from emit_run_keeps_absent [OF nr Cons.prems(1) step]
  have a1: "f \<notin> set (listeners w1 event)" .
  show ?case
  proof (cases q)
    case (Some e)
    with Cons.prems step a1 show ?thesis by simp
  next
    case None
    with Cons.prems step have "run_funcs beh gs args True w1 = (r, w')" by simp
    from Cons.IH [OF a1 this] show ?thesis .
  qed
qed

text \<open>The closure of \<open>once\<close> leaves its listener unregistered, whether it fires or not.\<close>

lemma once_g_leaves_absent:
  assumes nr: "never_registers beh event f"
    and dist: "distinct (listeners w event)"
    and run: "emit_run beh (OnceWrapper event f) args w = (r, w')"
  shows "f \<notin> set (listeners w' event)"
proof (cases "f \<in> set (listeners w event)")
  case False
  from emit_run_keeps_absent [OF nr False run] show ?thesis .
next
  case True
  from run once_g_registered [OF dist True, of beh args]
  have "call_user beh f args (snd (remove_listener_naked event f w)) = (r, w')" by simp
  from call_user_keeps_absent [OF nr remove_listener_naked_registered(3) [OF dist True] this]
  show ?thesis .
qed

lemma emit_call_handlers:
  "emit beh event args w = (r, w') \<Longrightarrow> \<exists>q. call_handlers beh event args w = (q, w')"
  by (cases "call_handlers beh event args w")
     (auto simp: emit_def split: sum.splits if_splits option.splits)

lemma emit_returns_call_handlers:
  "emit beh event args w = (Inr b, w') \<Longrightarrow> \<exists>hb. call_handlers beh event args w = (Inr hb, w')"
  by (cases "call_handlers beh event args w")
     (auto simp: emit_def split: sum.splits if_splits option.splits)

lemma emit_absent_no_call:
  assumes wf: "wf_od event (events_get w event)"
    and absent: "f \<notin> set (listeners w event)"
    and em: "emit beh event args w = (r, w')"
  shows "\<exists>cs. calls w' = calls w @ cs \<and> filter (\<lambda>c. fst c = f) cs = []"
proof -
  from emit_call_handlers [OF em]
  obtain q where "run_funcs beh (od_values (events_get w event)) args False w = (q, w')"
    by (auto simp: call_handlers_def)
  from run_funcs_calls_other [OF _ this] wf_od_absent_targets [OF wf] absent
  show ?thesis by (simp add: listeners_def)
qed

lemma emit_empty_snapshot:
  "od_values (events_get w event) = [] \<Longrightarrow>
   emit beh event args w =
     (if event = ''error''
      then (Inl (case fst args of
                   [] \<Rightarrow> PyeeError VNone
                 | VExc e # _ \<Rightarrow> e
                 | a # _ \<Rightarrow> PyeeError a), w)
      else (Inr False, w))"
  by (simp add: emit_def call_handlers_def emit_handle_potential_error_def
      split: list.splits val.splits)

lemma emit_raises_call_handlers:
  "emit beh event args w = (r, w') \<Longrightarrow> call_handlers beh event args w = (Inl e, w'') \<Longrightarrow>
   r = Inl e \<and> w' = w''"
  by (simp add: emit_def)

lemma once_emit_general:
  assumes reg: "once beh event f w0 = (Inr r0, w1)"
    and wf: "wf_registry (events w1)"
    and wb: "wf_behaviour beh"
    and nr: "never_registers beh event f"
    and em: "emit beh event args w1 = (r, w2)"
  shows "\<exists>cs. calls w2 = calls w1 @ cs
           \<and> length (filter (\<lambda>c. fst c = f) cs) \<le> 1
           \<and> (filter (\<lambda>c. fst c = f) cs \<noteq> [] \<or> (\<exists>b. r = Inr b) \<longrightarrow>
                f \<notin> set (listeners w2 event)
                \<and> (\<forall>args2 r3 w3. emit beh event args2 w2 = (r3, w3) \<longrightarrow>
                      (\<exists>cs3. calls w3 = calls w2 @ cs3
                             \<and> filter (\<lambda>c. fst c = f) cs3 = [])))"
proof -
  let ?P = "\<lambda>c. fst c = f"
  from reg obtain u where "add_event_handler beh event f (OnceWrapper event f) w0 = (Inr u, w1)"
    by (auto simp: once_def split: prod.splits sum.splits)
  from add_event_handler_stored [OF this]
  obtain d where d: "events w1 event = Some d" "(f, OnceWrapper event f) \<in> set d" by blast
  from wf d have wfd: "wf_od event d" by (simp add: wf_registry_def)
  from wf_od_values_split_any [OF wfd d(2)]
  obtain pre post where sp: "od_values d = pre @ OnceWrapper event f # post"
    "\<forall>g \<in> set pre \<union> set post. target g \<noteq> f" by blast
  from emit_call_handlers [OF em] d sp
  obtain q where rf: "run_funcs beh (pre @ OnceWrapper event f # post) args False w1 = (q, w2)"
    and ch: "call_handlers beh event args w1 = (q, w2)"
    by (auto simp: call_handlers_def events_get_def)
  from emit_wf [OF wb wf em] have "wf_registry (events w2)" .
  from wf_registry_get [OF this] have wf2: "wf_od event (events_get w2 event)" .
  have later: "f \<notin> set (listeners w2 event)
                \<and> (\<forall>args2 r3 w3. emit beh event args2 w2 = (r3, w3) \<longrightarrow>
                      (\<exists>cs3. calls w3 = calls w2 @ cs3 \<and> filter ?P cs3 = []))"
    if absent: "f \<notin> set (listeners w2 event)"
    using absent emit_absent_no_call [OF wf2 absent] by blast
  obtain q1 wa where r1: "run_funcs beh pre args False w1 = (q1, wa)"
    by (cases "run_funcs beh pre args False w1")
  from run_funcs_calls_other [OF _ r1] sp(2)
  obtain c1 where c1: "calls wa = calls w1 @ c1" "filter ?P c1 = []" by auto
  show ?thesis
  proof (cases q1)
    case (Inl e)
    with rf r1 have "q = Inl e" "w2 = wa" by (simp_all add: run_funcs_append)
    with emit_raises_call_handlers [OF em] ch have "r = Inl e" by simp
    with c1 \<open>w2 = wa\<close> have "calls w2 = calls w1 @ c1
           \<and> length (filter ?P c1) \<le> 1
           \<and> (filter ?P c1 \<noteq> [] \<or> (\<exists>b. r = Inr b) \<longrightarrow>
                f \<notin> set (listeners w2 event)
                \<and> (\<forall>args2 r3 w3. emit beh event args2 w2 = (r3, w3) \<longrightarrow>
                      (\<exists>cs3. calls w3 = calls w2 @ cs3 \<and> filter ?P cs3 = [])))"
      by simp
    then show ?thesis by blast
  next
    case (Inr h1)
    with rf r1 have r2: "run_funcs beh (OnceWrapper event f # post) args h1 wa = (q, w2)"
      by (simp add: run_funcs_append)
    obtain q2 wc where st: "emit_run beh (OnceWrapper event f) args wa = (q2, wc)"
      by (cases "emit_run beh (OnceWrapper event f) args wa")
    from run_funcs_wf [OF wb wf r1] have "wf_registry (events wa)" .
    from wf_registry_get [OF this] have "distinct (listeners wa event)"
      by (simp add: wf_od_def listeners_def)
    from once_g_leaves_absent [OF nr this st] have ac: "f \<notin> set (listeners wc event)" .
    have absent: "f \<notin> set (listeners w2 event)"
    proof (cases q2)
      case (Some e)
      with r2 st have "w2 = wc" by simp
      with ac show ?thesis by simp
    next
      case None
      with r2 st have "run_funcs beh post args True wc = (q, w2)" by simp
      from run_funcs_keeps_absent [OF nr ac this] show ?thesis .
    qed
    from run_funcs_calls_at_most_once [OF rf sp(2)]
    obtain cs where "calls w2 = calls w1 @ cs" "length (filter ?P cs) \<le> 1" by blast
    with later [OF absent] show ?thesis by blast
  qed
qed

section \<open>Emission\<close>

text \<open>
  Claim C1. When no listener is registered for the event, \<open>emit\<close> returns \<open>False\<close> and
  leaves everything as it is, unless the event is \<open>error\<close>: then it raises the first
  positional argument if that is an exception, and \<open>PyeeError\<close> otherwise (also when
  there is no argument). When a listener is registered, \<open>emit\<close> raises nothing of its own:
  it returns \<open>True\<close>, or the exception that a listener raised.
\<close>

theorem emit_unheard:
  "(listeners w event = [] \<longrightarrow>
      emit beh event args w =
        (if event = ''error''
         then (Inl (case fst args of
                      [] \<Rightarrow> PyeeError VNone
                    | VExc e # _ \<Rightarrow> e
                    | a # _ \<Rightarrow> PyeeError a), w)
         else (Inr False, w)))
   \<and> (listeners w event \<noteq> [] \<longrightarrow>
      emit beh event args w =
        (case call_handlers beh event args w of
           (Inl e, w') \<Rightarrow> (Inl e, w')
         | (Inr _, w') \<Rightarrow> (Inr True, w')))"
proof (intro conjI impI)
  assume "listeners w event = []"
  then have "od_values (events_get w event) = []"
    by (simp add: listeners_def od_keys_def od_values_def)
  then have ch: "call_handlers beh event args w = (Inr False, w)"
    by (simp add: call_handlers_def)
  show "emit beh event args w =
        (if event = ''error''
         then (Inl (case fst args of
                      [] \<Rightarrow> PyeeError VNone
                    | VExc e # _ \<Rightarrow> e
                    | a # _ \<Rightarrow> PyeeError a), w)
         else (Inr False, w))"
    by (simp add: emit_def ch emit_handle_potential_error_def split: list.splits val.splits)
next
  assume "listeners w event \<noteq> []"
  then have ne: "od_values (events_get w event) \<noteq> []"
    by (simp add: listeners_def od_keys_def od_values_def)
  show "emit beh event args w =
        (case call_handlers beh event args w of
           (Inl e, w') \<Rightarrow> (Inl e, w')
         | (Inr _, w') \<Rightarrow> (Inr True, w'))"
  proof (cases "call_handlers beh event args w")
    case (Pair r w')
    show ?thesis
    proof (cases r)
      case (Inl e)
      with Pair show ?thesis by (simp add: emit_def)
    next
      case (Inr b)
      with Pair have "run_funcs beh (od_values (events_get w event)) args False w = (Inr b, w')"
        by (simp add: call_handlers_def)
      from run_funcs_handled [OF this] ne have "b" by simp
      with Pair Inr show ?thesis by (simp add: emit_def)
    qed
  qed
qed

theorem emit_unheard_witness:
  "listeners (init ()) ''error'' = []
   \<and> emit quiet ''error'' ([VExc (UserError ''boom'')], []) (init ()) =
       (Inl (UserError ''boom''), init ())
   \<and> emit quiet ''error'' ([VInt 7], []) (init ()) = (Inl (PyeeError (VInt 7)), init ())
   \<and> emit quiet ''missing'' ([VInt 7], []) (init ()) = (Inr False, init ())
   \<and> listeners \<lparr>events = [''error'' \<mapsto> [(0, Plain 0)]], calls = [], user = ()\<rparr> ''error'' \<noteq> []
   \<and> emit quiet ''error'' ([VInt 7], [])
         \<lparr>events = [''error'' \<mapsto> [(0, Plain 0)]], calls = [], user = ()\<rparr> =
       (Inr True, \<lparr>events = [''error'' \<mapsto> [(0, Plain 0)]],
                   calls = [(0, ([VInt 7], []))], user = ()\<rparr>)"
proof -
  have none: "listeners (init ()) ev = []" for ev
    by (simp add: listeners_def events_get_def od_keys_def init_def)
  have some: "listeners \<lparr>events = [''error'' \<mapsto> [(0, Plain 0)]], calls = [], user = ()\<rparr> ''error'' \<noteq> []"
    by (simp add: listeners_def events_get_def od_keys_def)
  show ?thesis
    using none some
      emit_unheard [of "init ()" "''error''" quiet "([VExc (UserError ''boom'')], [])"]
      emit_unheard [of "init ()" "''error''" quiet "([VInt 7], [])"]
      emit_unheard [of "init ()" "''missing''" quiet "([VInt 7], [])"]
      emit_unheard [of "\<lparr>events = [''error'' \<mapsto> [(0, Plain 0)]], calls = [], user = ()\<rparr>"
                       "''error''" quiet "([VInt 7], [])"]
    by (simp add: call_handlers_def events_get_def od_values_def call_user_def quiet_def)
qed

text \<open>
  Claim C2. After \<open>on(event, f)\<close> has returned, and with \<open>f\<close> the only listener of the
  event, \<open>emit(event, *args)\<close> calls \<open>f\<close> exactly once, with exactly \<open>args\<close>, on the registry
  as it stands: the log grows by the one entry \<open>(f, args)\<close>. \<open>emit\<close> returns \<open>True\<close> when \<open>f\<close>
  returns; when \<open>f\<close> raises, its exception leaves \<open>emit\<close>.
\<close>

theorem on_then_emit:
  assumes reg: "on beh event f w = (Inr r, w1)"
    and only: "listeners w1 event = [f]"
  shows "emit beh event args w1 =
           (case beh f args (events w1, user w1) of
              (None, reg, u) \<Rightarrow>
                (Inr True, \<lparr>events = reg, calls = calls w1 @ [(f, args)], user = u\<rparr>)
            | (Some e, reg, u) \<Rightarrow>
                (Inl e, \<lparr>events = reg, calls = calls w1 @ [(f, args)], user = u\<rparr>))"
proof -
  from reg obtain u where "add_event_handler beh event f (Plain f) w = (Inr u, w1)"
    by (auto simp: on_def add_listener_def split: prod.splits sum.splits)
  from add_event_handler_stored [OF this]
  obtain d where d: "events w1 event = Some d" "map_of d f = Some (Plain f)" by blast
  with only have "d = [(f, Plain f)]"
    by (simp add: listeners_def events_get_def singleton_od)
  with d have "od_values (events_get w1 event) = [Plain f]"
    by (simp add: events_get_def od_values_def)
  then show ?thesis
    by (simp add: emit_def call_handlers_def call_user_def split: prod.splits option.splits)
qed

theorem on_then_emit_witness:
  "on quiet ''greet'' 0 (init ()) =
     (Inr 0, \<lparr>events = [''greet'' \<mapsto> [(0, Plain 0)]], calls = [], user = ()\<rparr>)
   \<and> listeners \<lparr>events = [''greet'' \<mapsto> [(0, Plain 0)]], calls = [], user = ()\<rparr> ''greet'' = [0]
   \<and> emit quiet ''greet'' ([VStr ''hi''], [])
         \<lparr>events = [''greet'' \<mapsto> [(0, Plain 0)]], calls = [], user = ()\<rparr> =
       (Inr True, \<lparr>events = [''greet'' \<mapsto> [(0, Plain 0)]],
                   calls = [(0, ([VStr ''hi''], []))], user = ()\<rparr>)"
proof -
  have reg: "on quiet ''greet'' 0 (init ()) =
     (Inr 0, \<lparr>events = [''greet'' \<mapsto> [(0, Plain 0)]], calls = [], user = ()\<rparr>)"
    by (simp add: emitter_defs)
  have only: "listeners \<lparr>events = [''greet'' \<mapsto> [(0, Plain 0)]], calls = [], user = ()\<rparr> ''greet'' = [0]"
    by (simp add: listeners_def events_get_def od_keys_def)
  show ?thesis
    using reg only on_then_emit [OF reg only, of "([VStr ''hi''], [])"]
    by (simp add: quiet_def)
qed

section \<open>One-shot listeners\<close>

text \<open>
  Claim C3, as the source has it. In any collection, the closure of \<open>once(event, f)\<close>
  called while \<open>f\<close> is registered under the event removes the entry of \<open>f\<close>, leaves the
  other listeners in their order, and only then calls \<open>f\<close>; called while \<open>f\<close> is not
  registered it calls nothing and changes nothing. After \<open>once(event, f)\<close> has returned
  in a well-formed emitter whose callables do not register \<open>f\<close> under the event, an
  \<open>emit(event)\<close> calls \<open>f\<close> at most once, and if it has called \<open>f\<close> or has returned, \<open>f\<close> is
  no longer registered and no later \<open>emit(event)\<close> calls \<open>f\<close>. With \<open>f\<close> the only listener
  of the event, the first \<open>emit(event)\<close> calls \<open>f\<close> once, on a registry in which the event
  has no entry any more; if the body of \<open>f\<close> leaves it so, a second \<open>emit(event)\<close> calls
  nothing, changes nothing and returns \<open>False\<close>, except for the event \<open>error\<close>, where it
  raises the first positional argument if that is an exception and \<open>PyeeError\<close> otherwise.
\<close>

theorem once_fires_once:
  "(distinct (listeners w event) \<and> f \<in> set (listeners w event) \<longrightarrow>
      emit_run beh (OnceWrapper event f) args w =
        call_user beh f args (snd (remove_listener_naked event f w))
      \<and> f \<notin> set (listeners (snd (remove_listener_naked event f w)) event)
      \<and> listeners (snd (remove_listener_naked event f w)) event =
          filter (\<lambda>k. k \<noteq> f) (listeners w event)
      \<and> calls (snd (remove_listener_naked event f w)) = calls w)
   \<and> (f \<notin> set (listeners w event) \<longrightarrow>
      emit_run beh (OnceWrapper event f) args w = (None, w))
   \<and> (once beh event f w0 = (Inr r0, w1) \<and> wf_registry (events w1) \<and> wf_behaviour beh
       \<and> never_registers beh event f \<and> emit beh event args w1 = (r, w2) \<longrightarrow>
      (\<exists>cs. calls w2 = calls w1 @ cs
         \<and> length (filter (\<lambda>c. fst c = f) cs) \<le> 1
         \<and> (filter (\<lambda>c. fst c = f) cs \<noteq> [] \<or> (\<exists>b. r = Inr b) \<longrightarrow>
              f \<notin> set (listeners w2 event)
              \<and> (\<forall>args2 r3 w3. emit beh event args2 w2 = (r3, w3) \<longrightarrow>
                    (\<exists>cs3. calls w3 = calls w2 @ cs3
                           \<and> filter (\<lambda>c. fst c = f) cs3 = [])))))
   \<and> (once beh event f w0 = (Inr r0, w1) \<and> listeners w1 event = [f] \<longrightarrow>
      emit beh event args w1 =
        (case beh f args ((events w1)(event := None), user w1) of
           (None, reg, u) \<Rightarrow>
             (Inr True, \<lparr>events = reg, calls = calls w1 @ [(f, args)], user = u\<rparr>)
         | (Some e, reg, u) \<Rightarrow>
             (Inl e, \<lparr>events = reg, calls = calls w1 @ [(f, args)], user = u\<rparr>))
      \<and> (fst (snd (beh f args ((events w1)(event := None), user w1))) event = None \<longrightarrow>
           emit beh event args2 (snd (emit beh event args w1)) =
             (if event = ''error''
              then (Inl (case fst args2 of
                           [] \<Rightarrow> PyeeError VNone
                         | VExc e # _ \<Rightarrow> e
                         | a # _ \<Rightarrow> PyeeError a), snd (emit beh event args w1))
              else (Inr False, snd (emit beh event args w1)))))"
proof -
  have fires: "emit_run beh (OnceWrapper event f) args w =
        call_user beh f args (snd (remove_listener_naked event f w))
      \<and> f \<notin> set (listeners (snd (remove_listener_naked event f w)) event)
      \<and> listeners (snd (remove_listener_naked event f w)) event =
          filter (\<lambda>k. k \<noteq> f) (listeners w event)
      \<and> calls (snd (remove_listener_naked event f w)) = calls w"
    if "distinct (listeners w event)" "f \<in> set (listeners w event)"
    using once_g_registered [OF that, of beh args]
      remove_listener_naked_registered(2,3,4) [OF that]
    by simp
  have stale: "emit_run beh (OnceWrapper event f) args w = (None, w)"
    if "f \<notin> set (listeners w event)"
    using that by (simp add: listeners_def once_g_def)
  have general: "\<exists>cs. calls w2 = calls w1 @ cs
         \<and> length (filter (\<lambda>c. fst c = f) cs) \<le> 1
         \<and> (filter (\<lambda>c. fst c = f) cs \<noteq> [] \<or> (\<exists>b. r = Inr b) \<longrightarrow>
              f \<notin> set (listeners w2 event)
              \<and> (\<forall>args2 r3 w3. emit beh event args2 w2 = (r3, w3) \<longrightarrow>
                    (\<exists>cs3. calls w3 = calls w2 @ cs3
                           \<and> filter (\<lambda>c. fst c = f) cs3 = [])))"
    if "once beh event f w0 = (Inr r0, w1)" "wf_registry (events w1)" "wf_behaviour beh"
      "never_registers beh event f" "emit beh event args w1 = (r, w2)"
    using once_emit_general [OF that] .
  have sole: "emit beh event args w1 =
        (case beh f args ((events w1)(event := None), user w1) of
           (None, reg, u) \<Rightarrow>
             (Inr True, \<lparr>events = reg, calls = calls w1 @ [(f, args)], user = u\<rparr>)
         | (Some e, reg, u) \<Rightarrow>
             (Inl e, \<lparr>events = reg, calls = calls w1 @ [(f, args)], user = u\<rparr>))
      \<and> (fst (snd (beh f args ((events w1)(event := None), user w1))) event = None \<longrightarrow>
           emit beh event args2 (snd (emit beh event args w1)) =
             (if event = ''error''
              then (Inl (case fst args2 of
                           [] \<Rightarrow> PyeeError VNone
                         | VExc e # _ \<Rightarrow> e
                         | a # _ \<Rightarrow> PyeeError a), snd (emit beh event args w1))
              else (Inr False, snd (emit beh event args w1))))"
    if reg: "once beh event f w0 = (Inr r0, w1)" and only: "listeners w1 event = [f]"
  proof -
    from reg obtain u where "add_event_handler beh event f (OnceWrapper event f) w0 = (Inr u, w1)"
      by (auto simp: once_def split: prod.splits sum.splits)
    from add_event_handler_stored [OF this]
    obtain d where d: "events w1 event = Some d" "map_of d f = Some (OnceWrapper event f)"
      by blast
    with only have d1: "d = [(f, OnceWrapper event f)]"
      by (simp add: listeners_def events_get_def singleton_od)
    with d have vals: "od_values (events_get w1 event) = [OnceWrapper event f]"
      by (simp add: events_get_def od_values_def)
    have rm: "remove_listener_naked event f w1 =
                (Inr (), w1\<lparr>events := (events w1)(event := None)\<rparr>)"
      using d d1 by (simp add: remove_listener_naked_def)
    have guard: "event \<in> dom (events w1) \<and> f \<in> set (od_keys (events_get w1 event))"
      using d d1 by (auto simp: events_get_def od_keys_def)
    have first: "emit beh event args w1 =
        (case beh f args ((events w1)(event := None), user w1) of
           (None, reg, u) \<Rightarrow>
             (Inr True, \<lparr>events = reg, calls = calls w1 @ [(f, args)], user = u\<rparr>)
         | (Some e, reg, u) \<Rightarrow>
             (Inl e, \<lparr>events = reg, calls = calls w1 @ [(f, args)], user = u\<rparr>))"
      using guard
      by (simp add: emit_def call_handlers_def vals rm call_user_def once_g_def
          split: prod.splits option.splits)
    have second: "emit beh event args2 (snd (emit beh event args w1)) =
             (if event = ''error''
              then (Inl (case fst args2 of
                           [] \<Rightarrow> PyeeError VNone
                         | VExc e # _ \<Rightarrow> e
                         | a # _ \<Rightarrow> PyeeError a), snd (emit beh event args w1))
              else (Inr False, snd (emit beh event args w1)))"
      if gone: "fst (snd (beh f args ((events w1)(event := None), user w1))) event = None"
    proof -
      have "events (snd (emit beh event args w1)) event = None"
        using gone by (auto simp: first split: prod.splits option.splits)
      then have "od_values (events_get (snd (emit beh event args w1)) event) = []"
        by (simp add: events_get_def od_values_def)
      then show ?thesis by (rule emit_empty_snapshot)
    qed
    from first second show ?thesis by blast
  qed
  from fires stale general sole show ?thesis by blast
qed

theorem once_fires_once_witness:
  "distinct (listeners with_company ''x'') \<and> 3 \<in> set (listeners with_company ''x'')
   \<and> emit_run quiet (OnceWrapper ''x'' 3) ([VInt 1], []) with_company =
       (None, \<lparr>events = [''x'' \<mapsto> [(0, Plain 0)]], calls = [(3, ([VInt 1], []))], user = ()\<rparr>)
   \<and> listeners (snd (remove_listener_naked ''x'' 3 with_company)) ''x'' = [0]
   \<and> 3 \<notin> set (listeners one_plain ''x'')
   \<and> emit_run quiet (OnceWrapper ''x'' 3) ([VInt 1], []) one_plain = (None, one_plain)
   \<and> once quiet ''x'' 3 one_plain = (Inr 3, with_company)
   \<and> wf_registry (events with_company) \<and> wf_behaviour quiet \<and> never_registers quiet ''x'' 3
   \<and> emit quiet ''x'' ([VInt 1], []) with_company = (Inr True, after_firing)
   \<and> 3 \<notin> set (listeners after_firing ''x'')
   \<and> emit quiet ''x'' ([VInt 2], []) after_firing =
       (Inr True, after_firing\<lparr>calls := calls after_firing @ [(0, ([VInt 2], []))]\<rparr>)
   \<and> once quiet ''error'' 0 (init ()) =
       (Inr 0, \<lparr>events = [''error'' \<mapsto> [(0, OnceWrapper ''error'' 0)]],
                calls = [], user = ()\<rparr>)
   \<and> listeners \<lparr>events = [''error'' \<mapsto> [(0, OnceWrapper ''error'' 0)]],
                  calls = [], user = ()\<rparr> ''error'' = [0]
   \<and> emit quiet ''error'' ([VInt 1], [])
         \<lparr>events = [''error'' \<mapsto> [(0, OnceWrapper ''error'' 0)]], calls = [], user = ()\<rparr> =
       (Inr True, \<lparr>events = Map.empty, calls = [(0, ([VInt 1], []))], user = ()\<rparr>)
   \<and> emit quiet ''error'' ([VInt 2], [])
         \<lparr>events = Map.empty, calls = [(0, ([VInt 1], []))], user = ()\<rparr> =
       (Inl (PyeeError (VInt 2)),
        \<lparr>events = Map.empty, calls = [(0, ([VInt 1], []))], user = ()\<rparr>)
   \<and> once quiet ''y'' 0 (init ()) =
       (Inr 0, \<lparr>events = [''y'' \<mapsto> [(0, OnceWrapper ''y'' 0)]], calls = [], user = ()\<rparr>)
   \<and> listeners \<lparr>events = [''y'' \<mapsto> [(0, OnceWrapper ''y'' 0)]], calls = [], user = ()\<rparr> ''y''
       = [0]
   \<and> emit quiet ''y'' ([VInt 1], [])
         \<lparr>events = [''y'' \<mapsto> [(0, OnceWrapper ''y'' 0)]], calls = [], user = ()\<rparr> =
       (Inr True, \<lparr>events = Map.empty, calls = [(0, ([VInt 1], []))], user = ()\<rparr>)
   \<and> emit quiet ''y'' ([VInt 2], [])
         \<lparr>events = Map.empty, calls = [(0, ([VInt 1], []))], user = ()\<rparr> =
       (Inr False, \<lparr>events = Map.empty, calls = [(0, ([VInt 1], []))], user = ()\<rparr>)"
proof -
  let ?a = "([VInt 1], [])"
  have dist: "distinct (listeners with_company ''x'') \<and> 3 \<in> set (listeners with_company ''x'')"
    by (simp add: listeners_def events_get_def od_keys_def with_company_def)
  note fires = once_fires_once [THEN conjunct1, THEN mp, OF dist, of quiet ?a]
  have rm: "snd (remove_listener_naked ''x'' 3 with_company) =
              \<lparr>events = [''x'' \<mapsto> [(0, Plain 0)]], calls = [], user = ()\<rparr>"
    by (simp add: remove_listener_naked_def with_company_def)
  from fires have run: "emit_run quiet (OnceWrapper ''x'' 3) ?a with_company =
       (None, \<lparr>events = [''x'' \<mapsto> [(0, Plain 0)]], calls = [(3, ?a)], user = ()\<rparr>)"
    by (simp add: rm call_user_def quiet_def)
  have l: "listeners with_company ''x'' = [0, 3]"
    by (simp add: listeners_def events_get_def od_keys_def with_company_def)
  from fires have "listeners (snd (remove_listener_naked ''x'' 3 with_company)) ''x'' =
      filter (\<lambda>k. k \<noteq> 3) (listeners with_company ''x'')"
    by blast
  then have left: "listeners (snd (remove_listener_naked ''x'' 3 with_company)) ''x'' = [0]"
    by (simp add: l)
  have absent: "3 \<notin> set (listeners one_plain ''x'')"
    by (simp add: listeners_def events_get_def od_keys_def one_plain_def)
  note stale = once_fires_once [THEN conjunct2, THEN conjunct1, THEN mp, OF absent,
      of quiet ?a]
  have reg: "once quiet ''x'' 3 one_plain = (Inr 3, with_company)"
    by (simp add: emitter_defs one_plain_def with_company_def)
  have wf: "wf_registry (events with_company)"
    by (simp add: wf_registry_def wf_od_def od_keys_def with_company_def)
  have wb: "wf_behaviour quiet"
    by (simp add: wf_behaviour_def quiet_def)
  have nr: "never_registers quiet ''x'' 3"
    by (simp add: never_registers_def quiet_def)
  have em: "emit quiet ''x'' ?a with_company = (Inr True, after_firing)"
    by (simp add: emitter_defs with_company_def after_firing_def quiet_def image_iff)
  have em2: "emit quiet ''x'' ([VInt 2], []) after_firing =
       (Inr True, after_firing\<lparr>calls := calls after_firing @ [(0, ([VInt 2], []))]\<rparr>)"
    by (simp add: emitter_defs after_firing_def quiet_def)
  from once_fires_once [THEN conjunct2, THEN conjunct2, THEN conjunct1, THEN mp,
      of quiet "''x''" 3 one_plain 3 with_company ?a "Inr True" after_firing]
    reg wf wb nr em
  have gone: "3 \<notin> set (listeners after_firing ''x'')"
    by blast
  have reg0: "once quiet ''error'' 0 (init ()) =
       (Inr 0, \<lparr>events = [''error'' \<mapsto> [(0, OnceWrapper ''error'' 0)]],
                calls = [], user = ()\<rparr>)"
    by (simp add: emitter_defs)
  have only0: "listeners \<lparr>events = [''error'' \<mapsto> [(0, OnceWrapper ''error'' 0)]],
                  calls = [], user = ()\<rparr> ''error'' = [0]"
    by (simp add: listeners_def events_get_def od_keys_def)
  note sole = once_fires_once [THEN conjunct2, THEN conjunct2, THEN conjunct2, THEN mp,
      OF conjI [OF reg0 only0], of ?a "([VInt 2], [])"]
  from sole have e1: "emit quiet ''error'' ?a
         \<lparr>events = [''error'' \<mapsto> [(0, OnceWrapper ''error'' 0)]], calls = [], user = ()\<rparr> =
       (Inr True, \<lparr>events = Map.empty, calls = [(0, ?a)], user = ()\<rparr>)"
    by (simp add: quiet_def)
  from sole have e2: "emit quiet ''error'' ([VInt 2], [])
         \<lparr>events = Map.empty, calls = [(0, ?a)], user = ()\<rparr> =
       (Inl (PyeeError (VInt 2)), \<lparr>events = Map.empty, calls = [(0, ?a)], user = ()\<rparr>)"
    by (simp add: quiet_def e1)
  have regy: "once quiet ''y'' 0 (init ()) =
       (Inr 0, \<lparr>events = [''y'' \<mapsto> [(0, OnceWrapper ''y'' 0)]], calls = [], user = ()\<rparr>)"
    by (simp add: emitter_defs)
  have onlyy: "listeners \<lparr>events = [''y'' \<mapsto> [(0, OnceWrapper ''y'' 0)]],
                  calls = [], user = ()\<rparr> ''y'' = [0]"
    by (simp add: listeners_def events_get_def od_keys_def)
  note soley = once_fires_once [THEN conjunct2, THEN conjunct2, THEN conjunct2, THEN mp,
      OF conjI [OF regy onlyy], of ?a "([VInt 2], [])"]
  from soley have y1: "emit quiet ''y'' ?a
         \<lparr>events = [''y'' \<mapsto> [(0, OnceWrapper ''y'' 0)]], calls = [], user = ()\<rparr> =
       (Inr True, \<lparr>events = Map.empty, calls = [(0, ?a)], user = ()\<rparr>)"
    by (simp add: quiet_def)
  from soley have y2: "emit quiet ''y'' ([VInt 2], [])
         \<lparr>events = Map.empty, calls = [(0, ?a)], user = ()\<rparr> =
       (Inr False, \<lparr>events = Map.empty, calls = [(0, ?a)], user = ()\<rparr>)"
    by (simp add: quiet_def y1)
  from dist run left absent stale reg wf wb nr em gone em2 reg0 only0 e1 e2 regy onlyy y1 y2
  show ?thesis by blast
qed

text \<open>
  Claim C3 as stated fails on the source for the event \<open>error\<close>: after \<open>once("error", f)\<close>
  with \<open>f\<close> the only listener and a first \<open>emit("error")\<close> that calls \<open>f\<close>, the second
  \<open>emit("error")\<close> does not return \<open>False\<close>: it raises \<open>PyeeError\<close>.
\<close>

theorem once_error_counterexample:
  "listeners (snd (once quiet ''error'' 0 (init ()))) ''error'' = [0]
   \<and> emit quiet ''error'' ([], []) (snd (once quiet ''error'' 0 (init ()))) =
       (Inr True, \<lparr>events = Map.empty, calls = [(0, ([], []))], user = ()\<rparr>)
   \<and> emit quiet ''error'' ([], [])
         \<lparr>events = Map.empty, calls = [(0, ([], []))], user = ()\<rparr> =
       (Inl (PyeeError VNone), \<lparr>events = Map.empty, calls = [(0, ([], []))], user = ()\<rparr>)"
  by (simp add: emitter_defs quiet_def)

section \<open>Removal and introspection\<close>

text \<open>
  Claim C6. \<open>remove_listener(event, f)\<close> for an \<open>f\<close> that is not registered under the event
  raises \<open>KeyError\<close> (of the event name when the event has no entry, of \<open>f\<close> otherwise) and
  leaves the emitter exactly as it was.
\<close>

theorem remove_listener_absent:
  "f \<notin> set (listeners w event) \<Longrightarrow>
   remove_listener event f w =
     (Inl (KeyError (if event \<in> event_names w then VFun f else VStr event)), w)"
proof (cases "events w event")
  case None
  then show ?thesis
    by (simp add: remove_listener_def remove_listener_naked_def event_names_def dom_def)
next
  case (Some d)
  assume "f \<notin> set (listeners w event)"
  with Some have "od_pop f d = None"
    by (simp add: od_pop_None_iff listeners_def events_get_def)
  with Some show ?thesis
    by (simp add: remove_listener_def remove_listener_naked_def event_names_def dom_def)
qed

theorem remove_listener_absent_witness:
  "1 \<notin> set (listeners \<lparr>events = [''x'' \<mapsto> [(0, Plain 0)]], calls = [], user = ()\<rparr> ''x'')
   \<and> remove_listener ''x'' 1 \<lparr>events = [''x'' \<mapsto> [(0, Plain 0)]], calls = [], user = ()\<rparr> =
       (Inl (KeyError (VFun 1)), \<lparr>events = [''x'' \<mapsto> [(0, Plain 0)]], calls = [], user = ()\<rparr>)
   \<and> 1 \<notin> set (listeners \<lparr>events = [''x'' \<mapsto> [(0, Plain 0)]], calls = [], user = ()\<rparr> ''y'')
   \<and> remove_listener ''y'' 1 \<lparr>events = [''x'' \<mapsto> [(0, Plain 0)]], calls = [], user = ()\<rparr> =
       (Inl (KeyError (VStr ''y'')), \<lparr>events = [''x'' \<mapsto> [(0, Plain 0)]], calls = [], user = ()\<rparr>)"
proof -
  have a: "1 \<notin> set (listeners \<lparr>events = [''x'' \<mapsto> [(0, Plain 0)]], calls = [], user = ()\<rparr> ''x'')"
    by (simp add: listeners_def events_get_def od_keys_def)
  have b: "1 \<notin> set (listeners \<lparr>events = [''x'' \<mapsto> [(0, Plain 0)]], calls = [], user = ()\<rparr> ''y'')"
    by (simp add: listeners_def events_get_def od_keys_def)
  show ?thesis
    using a b remove_listener_absent [OF a] remove_listener_absent [OF b]
    by (simp add: event_names_def)
qed

text \<open>
  Claim C4, evaluated on the source. After \<open>on("x", f)\<close>, \<open>remove_all_listeners("x")\<close>
  does not delete the key \<open>x\<close>: it binds it to a new, empty collection, so the registry
  holds an event name with an empty collection. For an event that was never registered
  it even creates the key.
\<close>

theorem remove_all_listeners_keeps_key:
  "events (snd (add_listener quiet ''x'' 0 (init ()))) ''x'' = Some [(0, Plain 0)]
   \<and> events (remove_all_listeners (Some ''x'') (snd (add_listener quiet ''x'' 0 (init ())))) ''x''
       = Some []
   \<and> events (remove_all_listeners (Some ''y'') (init ())) ''y'' = Some []"
  by (simp add: emitter_defs)

text \<open>
  Claim C5, evaluated on the source. After \<open>on("x", f)\<close> and \<open>remove_all_listeners("x")\<close>
  the event \<open>x\<close> has no listener, and \<open>event_names()\<close> still returns it; after \<open>on("x", f)\<close>
  and \<open>remove_listener("x", f)\<close> it does not.
\<close>

theorem event_names_after_remove_all:
  "listeners (remove_all_listeners (Some ''x'') (snd (add_listener quiet ''x'' 0 (init ())))) ''x''
     = []
   \<and> event_names (remove_all_listeners (Some ''x'') (snd (add_listener quiet ''x'' 0 (init ()))))
       = {''x''}
   \<and> event_names (snd (remove_listener ''x'' 0 (snd (add_listener quiet ''x'' 0 (init ())))))
       = {}"
  by (simp add: emitter_defs)

section \<open>Registration\<close>

text \<open>
  Claim C7. Let \<open>on(event, f)\<close> have returned, leaving a well-formed collection for the
  event. When \<open>on(event, f)\<close> is called again, and its \<open>new_listener\<close> emission returns and
  leaves the collection of the event as it was, then the call returns \<open>f\<close> and the
  listeners of the event are the same list as before (no second entry, and \<open>f\<close> where it
  was). Every following \<open>emit(event, *args)\<close> that returns has returned \<open>True\<close> and has
  called \<open>f\<close> exactly once, with \<open>args\<close>; one that raises has called \<open>f\<close> at most once.
\<close>

theorem on_twice:
  assumes first: "on beh event f w0 = (Inr r1, w1)"
    and wf: "wf_od event (events_get w1 event)"
    and notif: "emit beh ''new_listener'' ([VStr event, VFun f], []) w1 = (Inr b, w1')"
    and keep: "events w1' event = events w1 event"
  shows "\<exists>w2. on beh event f w1 = (Inr f, w2)
           \<and> listeners w2 event = listeners w1 event
           \<and> (\<forall>args r w3. emit beh event args w2 = (r, w3) \<longrightarrow>
                  (\<exists>cs. calls w3 = calls w2 @ cs \<and>
                     (case r of
                        Inr b3 \<Rightarrow> b3 \<and> filter (\<lambda>c. fst c = f) cs = [(f, args)]
                      | Inl e \<Rightarrow> length (filter (\<lambda>c. fst c = f) cs) \<le> 1)))"
proof -
  from first obtain u where "add_event_handler beh event f (Plain f) w0 = (Inr u, w1)"
    by (auto simp: on_def add_listener_def split: prod.splits sum.splits)
  from add_event_handler_stored [OF this]
  obtain d where d: "events w1 event = Some d" "(f, Plain f) \<in> set d" by blast
  then have fd: "f \<in> set (od_keys d)" by (force simp: od_keys_def)
  from d wf have wfd: "wf_od event d" by (simp add: events_get_def)
  define w2 where "w2 = w1'\<lparr>events := (events w1')(event \<mapsto> od_set f (Plain f) d)\<rparr>"
  have second: "on beh event f w1 = (Inr f, w2)"
    using notif keep d by (simp add: on_def add_listener_def add_event_handler_def
        events_get_def w2_def)
  have ev2: "events_get w2 event = od_set f (Plain f) d"
    by (simp add: w2_def events_get_def)
  have order: "listeners w2 event = listeners w1 event"
    using d fd by (simp add: listeners_def ev2 od_set_keys_mem) (simp add: events_get_def)
  have wf2: "wf_od event (od_set f (Plain f) d)"
    using wfd by (rule wf_od_set) simp
  from wf_od_values_split [OF wf2 od_set_mem]
  obtain pre post where sp: "od_values (od_set f (Plain f) d) = pre @ Plain f # post"
    "\<forall>g \<in> set pre \<union> set post. target g \<noteq> f" by blast
  have disp: "\<exists>cs. calls w3 = calls w2 @ cs \<and>
                     (case r of
                        Inr b3 \<Rightarrow> b3 \<and> filter (\<lambda>c. fst c = f) cs = [(f, args)]
                      | Inl e \<Rightarrow> length (filter (\<lambda>c. fst c = f) cs) \<le> 1)"
    if em: "emit beh event args w2 = (r, w3)" for args r w3
  proof -
    obtain q w' where rf: "run_funcs beh (pre @ Plain f # post) args False w2 = (q, w')"
      by (cases "run_funcs beh (pre @ Plain f # post) args False w2")
    then have ch: "call_handlers beh event args w2 = (q, w')"
      by (simp add: call_handlers_def ev2 sp)
    from run_funcs_calls_once [OF rf sp(2)]
    obtain cs where cs: "calls w' = calls w2 @ cs"
      "case q of Inr b \<Rightarrow> filter (\<lambda>c. fst c = f) cs = [(f, args)]
               | Inl e \<Rightarrow> length (filter (\<lambda>c. fst c = f) cs) \<le> 1" by blast
    show ?thesis
    proof (cases q)
      case (Inl e)
      with em ch have "r = Inl e" "w3 = w'" by (simp_all add: emit_def)
      with cs Inl show ?thesis by auto
    next
      case (Inr hf)
      with run_funcs_handled [OF rf [unfolded Inr]] have "hf" by simp
      with em ch Inr have "r = Inr True" "w3 = w'" by (simp_all add: emit_def)
      with cs Inr show ?thesis by auto
    qed
  qed
  from second order disp show ?thesis by blast
qed

theorem on_twice_witness:
  "on quiet ''x'' 0 two_plain = (Inr 0, two_plain)
   \<and> wf_od ''x'' (events_get two_plain ''x'')
   \<and> emit quiet ''new_listener'' ([VStr ''x'', VFun 0], []) two_plain = (Inr False, two_plain)
   \<and> listeners (snd (on quiet ''x'' 0 two_plain)) ''x'' = [0, 1]
   \<and> emit quiet ''x'' ([VInt 5], []) two_plain =
       (Inr True, two_plain\<lparr>calls := [(0, ([VInt 5], [])), (1, ([VInt 5], []))]\<rparr>)
   \<and> (\<exists>cs. calls (two_plain\<lparr>calls := [(0, ([VInt 5], [])), (1, ([VInt 5], []))]\<rparr>)
               = calls two_plain @ cs
            \<and> filter (\<lambda>c. fst c = 0) cs = [(0, ([VInt 5], []))])"
proof -
  have first: "on quiet ''x'' 0 two_plain = (Inr 0, two_plain)"
    by (simp add: emitter_defs two_plain_def)
  have wf: "wf_od ''x'' (events_get two_plain ''x'')"
    by (simp add: wf_od_def events_get_def od_keys_def two_plain_def)
  have notif: "emit quiet ''new_listener'' ([VStr ''x'', VFun 0], []) two_plain
                 = (Inr False, two_plain)"
    by (simp add: emitter_defs two_plain_def)
  have disp: "emit quiet ''x'' ([VInt 5], []) two_plain =
       (Inr True, two_plain\<lparr>calls := [(0, ([VInt 5], [])), (1, ([VInt 5], []))]\<rparr>)"
    by (simp add: emitter_defs two_plain_def quiet_def)
  from on_twice [OF first wf notif refl]
  obtain w2 where w2: "on quiet ''x'' 0 two_plain = (Inr 0, w2)"
    and order: "listeners w2 ''x'' = listeners two_plain ''x''"
    and once: "\<And>args r w3. emit quiet ''x'' args w2 = (r, w3) \<Longrightarrow>
          \<exists>cs. calls w3 = calls w2 @ cs \<and>
            (case r of
               Inr b3 \<Rightarrow> b3 \<and> filter (\<lambda>c. fst c = 0) cs = [(0, args)]
             | Inl e \<Rightarrow> length (filter (\<lambda>c. fst c = 0) cs) \<le> 1)"
    by blast
  from w2 first have eq: "w2 = two_plain" by simp
  have l: "listeners (snd (on quiet ''x'' 0 two_plain)) ''x'' = [0, 1]"
    using order w2 by (simp add: eq) (simp add: listeners_def events_get_def od_keys_def two_plain_def)
  from once [of "([VInt 5], [])" "Inr True"] disp eq
  have c: "\<exists>cs. calls (two_plain\<lparr>calls := [(0, ([VInt 5], [])), (1, ([VInt 5], []))]\<rparr>)
               = calls two_plain @ cs
            \<and> filter (\<lambda>c. fst c = 0) cs = [(0, ([VInt 5], []))]"
    by auto
  from first wf notif l disp c show ?thesis by blast
qed

text \<open>
  Claim C9. \<open>listeners(event)\<close> is the list of keys of the event's collection, empty for an
  event without entry. A registration that returns leaves, for its event, the listeners
  found after its \<open>new_listener\<close> emission with the callable \<open>f\<close> appended, or unchanged when
  \<open>f\<close> was among them, and leaves the listeners of every other event as the emission left
  them. For \<open>once\<close> the list shows \<open>f\<close> while the stored value is the closure. Without
  \<open>new_listener\<close> listeners the emission does nothing.
\<close>

theorem listeners_are_keys:
  "(events w event = None \<longrightarrow> listeners w event = [])
   \<and> (on beh event f w = (Inr r, w1) \<longrightarrow>
        (let w' = snd (emit beh ''new_listener'' ([VStr event, VFun f], []) w) in
           listeners w1 event =
             (if f \<in> set (listeners w' event) then listeners w' event
              else listeners w' event @ [f])
           \<and> map_of (events_get w1 event) f = Some (Plain f)
           \<and> (\<forall>e. e \<noteq> event \<longrightarrow> listeners w1 e = listeners w' e)))
   \<and> (once beh event f w = (Inr r, w1) \<longrightarrow>
        (let w' = snd (emit beh ''new_listener'' ([VStr event, VFun f], []) w) in
           listeners w1 event =
             (if f \<in> set (listeners w' event) then listeners w' event
              else listeners w' event @ [f])
           \<and> map_of (events_get w1 event) f = Some (OnceWrapper event f)
           \<and> (\<forall>e. e \<noteq> event \<longrightarrow> listeners w1 e = listeners w' e)))
   \<and> (events w ''new_listener'' = None \<longrightarrow>
        emit beh ''new_listener'' ([VStr event, VFun f], []) w = (Inr False, w))"
proof (intro conjI impI)
  assume "events w event = None"
  then show "listeners w event = []"
    by (simp add: listeners_def events_get_def od_keys_def)
next
  assume "on beh event f w = (Inr r, w1)"
  then obtain u where "add_event_handler beh event f (Plain f) w = (Inr u, w1)"
    by (auto simp: on_def add_listener_def split: prod.splits sum.splits)
  from add_event_handler_listeners [OF this]
  show "let w' = snd (emit beh ''new_listener'' ([VStr event, VFun f], []) w) in
           listeners w1 event =
             (if f \<in> set (listeners w' event) then listeners w' event
              else listeners w' event @ [f])
           \<and> map_of (events_get w1 event) f = Some (Plain f)
           \<and> (\<forall>e. e \<noteq> event \<longrightarrow> listeners w1 e = listeners w' e)" .
next
  assume "once beh event f w = (Inr r, w1)"
  then obtain u where "add_event_handler beh event f (OnceWrapper event f) w = (Inr u, w1)"
    by (auto simp: once_def split: prod.splits sum.splits)
  from add_event_handler_listeners [OF this]
  show "let w' = snd (emit beh ''new_listener'' ([VStr event, VFun f], []) w) in
           listeners w1 event =
             (if f \<in> set (listeners w' event) then listeners w' event
              else listeners w' event @ [f])
           \<and> map_of (events_get w1 event) f = Some (OnceWrapper event f)
           \<and> (\<forall>e. e \<noteq> event \<longrightarrow> listeners w1 e = listeners w' e)" .
next
  assume "events w ''new_listener'' = None"
  then show "emit beh ''new_listener'' ([VStr event, VFun f], []) w = (Inr False, w)"
    by (simp add: emit_no_listeners)
qed

theorem listeners_are_keys_witness:
  "events (init ()) ''x'' = None \<and> listeners (init ()) ''x'' = []
   \<and> on quiet ''x'' 2 one_plain =
       (Inr 2, \<lparr>events = [''x'' \<mapsto> [(0, Plain 0), (2, Plain 2)]], calls = [], user = ()\<rparr>)
   \<and> listeners \<lparr>events = [''x'' \<mapsto> [(0, Plain 0), (2, Plain 2)]], calls = [], user = ()\<rparr> ''x''
       = [0, 2]
   \<and> once quiet ''x'' 3 one_plain =
       (Inr 3, \<lparr>events = [''x'' \<mapsto> [(0, Plain 0), (3, OnceWrapper ''x'' 3)]],
                calls = [], user = ()\<rparr>)
   \<and> listeners \<lparr>events = [''x'' \<mapsto> [(0, Plain 0), (3, OnceWrapper ''x'' 3)]],
                calls = [], user = ()\<rparr> ''x'' = [0, 3]
   \<and> events one_plain ''new_listener'' = None
   \<and> emit quiet ''new_listener'' ([VStr ''x'', VFun 3], []) one_plain = (Inr False, one_plain)"
proof -
  have e: "events (init ()) ''x'' = None"
    by (simp add: init_def)
  have a: "on quiet ''x'' 2 one_plain =
       (Inr 2, \<lparr>events = [''x'' \<mapsto> [(0, Plain 0), (2, Plain 2)]], calls = [], user = ()\<rparr>)"
    by (simp add: emitter_defs one_plain_def)
  have b: "once quiet ''x'' 3 one_plain =
       (Inr 3, \<lparr>events = [''x'' \<mapsto> [(0, Plain 0), (3, OnceWrapper ''x'' 3)]],
                calls = [], user = ()\<rparr>)"
    by (simp add: emitter_defs one_plain_def)
  have n: "events one_plain ''new_listener'' = None"
    by (simp add: one_plain_def)
  have l: "listeners one_plain ''x'' = [0]"
    by (simp add: listeners_def events_get_def od_keys_def one_plain_def)
  note k1 = listeners_are_keys [of "init ()" "''x''" quiet 0 0 "init ()"]
  note k2 = listeners_are_keys [of one_plain "''x''" quiet 2 2
      "\<lparr>events = [''x'' \<mapsto> [(0, Plain 0), (2, Plain 2)]], calls = [], user = ()\<rparr>"]
  note k3 = listeners_are_keys [of one_plain "''x''" quiet 3 3
      "\<lparr>events = [''x'' \<mapsto> [(0, Plain 0), (3, OnceWrapper ''x'' 3)]],
         calls = [], user = ()\<rparr>"]
  from k1 e have l0: "listeners (init ()) ''x'' = []" by blast
  note em3 = k3 [THEN conjunct2, THEN conjunct2, THEN conjunct2, THEN mp, OF n]
  note em2 = k2 [THEN conjunct2, THEN conjunct2, THEN conjunct2, THEN mp, OF n]
  note o2 = k2 [THEN conjunct2, THEN conjunct1, THEN mp, OF a]
  note o3 = k3 [THEN conjunct2, THEN conjunct2, THEN conjunct1, THEN mp, OF b]
  from o2 have l2: "listeners \<lparr>events = [''x'' \<mapsto> [(0, Plain 0), (2, Plain 2)]],
      calls = [], user = ()\<rparr> ''x'' = [0, 2]"
    by (simp add: em2 l Let_def)
  from o3 have l3: "listeners \<lparr>events = [''x'' \<mapsto> [(0, Plain 0), (3, OnceWrapper ''x'' 3)]],
                calls = [], user = ()\<rparr> ''x'' = [0, 3]"
    by (simp add: em3 l Let_def)
  from e l0 a l2 b l3 n em3 show ?thesis by blast
qed

text \<open>
  Claim C8. Every registration of \<open>f\<close> under an event (\<open>on\<close>, \<open>add_listener\<close>, the decorator
  of \<open>listens_to\<close>, \<open>once\<close>) first emits \<open>new_listener\<close> with the arguments \<open>(event, f)\<close> on
  the emitter as the call found it, and writes its entry afterwards, into the emitter
  that the emission returns, and only when the emission returns. With one listener \<open>h\<close>
  of \<open>new_listener\<close>, registered with \<open>on\<close>: \<open>h\<close> is called once, with \<open>(event, f)\<close>, on the
  registry of before the call, in which the entry of this registration is not written.
\<close>

theorem new_listener_before_insert:
  "on beh event f w =
     (case emit beh ''new_listener'' ([VStr event, VFun f], []) w of
        (Inl e, w') \<Rightarrow> (Inl e, w')
      | (Inr b, w') \<Rightarrow>
          (Inr f, w'\<lparr>events := (events w')(event \<mapsto>
                                 od_set f (Plain f) (events_get w' event))\<rparr>))
   \<and> add_listener beh event f w = on beh event f w
   \<and> listens_to beh event f w = on beh event f w
   \<and> once beh event f w =
     (case emit beh ''new_listener'' ([VStr event, VFun f], []) w of
        (Inl e, w') \<Rightarrow> (Inl e, w')
      | (Inr b, w') \<Rightarrow>
          (Inr f, w'\<lparr>events := (events w')(event \<mapsto>
                                 od_set f (OnceWrapper event f) (events_get w' event))\<rparr>))
   \<and> (events w ''new_listener'' = Some [(h, Plain h)] \<longrightarrow>
        on beh event f w =
           (case beh h ([VStr event, VFun f], []) (events w, user w) of
              (Some e, reg, u) \<Rightarrow>
                (Inl e, \<lparr>events = reg,
                          calls = calls w @ [(h, ([VStr event, VFun f], []))], user = u\<rparr>)
            | (None, reg, u) \<Rightarrow>
                (Inr f, \<lparr>events = reg(event \<mapsto>
                                    od_set f (Plain f)
                                      (case reg event of None \<Rightarrow> [] | Some d \<Rightarrow> d)),
                          calls = calls w @ [(h, ([VStr event, VFun f], []))], user = u\<rparr>))
        \<and> once beh event f w =
           (case beh h ([VStr event, VFun f], []) (events w, user w) of
              (Some e, reg, u) \<Rightarrow>
                (Inl e, \<lparr>events = reg,
                          calls = calls w @ [(h, ([VStr event, VFun f], []))], user = u\<rparr>)
            | (None, reg, u) \<Rightarrow>
                (Inr f, \<lparr>events = reg(event \<mapsto>
                                    od_set f (OnceWrapper event f)
                                      (case reg event of None \<Rightarrow> [] | Some d \<Rightarrow> d)),
                          calls = calls w @ [(h, ([VStr event, VFun f], []))], user = u\<rparr>)))"
proof -
  have general: "on beh event f w =
     (case emit beh ''new_listener'' ([VStr event, VFun f], []) w of
        (Inl e, w') \<Rightarrow> (Inl e, w')
      | (Inr b, w') \<Rightarrow>
          (Inr f, w'\<lparr>events := (events w')(event \<mapsto>
                                 od_set f (Plain f) (events_get w' event))\<rparr>))"
    "once beh event f w =
     (case emit beh ''new_listener'' ([VStr event, VFun f], []) w of
        (Inl e, w') \<Rightarrow> (Inl e, w')
      | (Inr b, w') \<Rightarrow>
          (Inr f, w'\<lparr>events := (events w')(event \<mapsto>
                                 od_set f (OnceWrapper event f) (events_get w' event))\<rparr>))"
    by (simp_all add: on_def add_listener_def once_def add_event_handler_def
        split: prod.splits sum.splits)
  have same: "add_listener beh event f w = on beh event f w"
    "listens_to beh event f w = on beh event f w"
    by (simp_all add: on_def add_listener_def listens_to_def)
  have single: "on beh event f w =
           (case beh h ([VStr event, VFun f], []) (events w, user w) of
              (Some e, reg, u) \<Rightarrow>
                (Inl e, \<lparr>events = reg,
                          calls = calls w @ [(h, ([VStr event, VFun f], []))], user = u\<rparr>)
            | (None, reg, u) \<Rightarrow>
                (Inr f, \<lparr>events = reg(event \<mapsto>
                                    od_set f (Plain f)
                                      (case reg event of None \<Rightarrow> [] | Some d \<Rightarrow> d)),
                          calls = calls w @ [(h, ([VStr event, VFun f], []))], user = u\<rparr>))
        \<and> once beh event f w =
           (case beh h ([VStr event, VFun f], []) (events w, user w) of
              (Some e, reg, u) \<Rightarrow>
                (Inl e, \<lparr>events = reg,
                          calls = calls w @ [(h, ([VStr event, VFun f], []))], user = u\<rparr>)
            | (None, reg, u) \<Rightarrow>
                (Inr f, \<lparr>events = reg(event \<mapsto>
                                    od_set f (OnceWrapper event f)
                                      (case reg event of None \<Rightarrow> [] | Some d \<Rightarrow> d)),
                          calls = calls w @ [(h, ([VStr event, VFun f], []))], user = u\<rparr>))"
    if hook: "events w ''new_listener'' = Some [(h, Plain h)]"
    by (simp add: on_def add_listener_def once_def
        add_event_handler_single_hook [OF hook] split: prod.splits option.splits)
  from general same single show ?thesis by blast
qed

theorem new_listener_before_insert_witness:
  "events (hooked [7::hid]) ''new_listener'' = Some [(0, Plain 0)]
   \<and> listeners (hooked [7::hid]) ''x'' = []
   \<and> on observer ''x'' 2 (hooked [7]) =
       (Inr 2, \<lparr>events = [''new_listener'' \<mapsto> [(0, Plain 0)], ''x'' \<mapsto> [(2, Plain 2)]],
                calls = [(0, ([VStr ''x'', VFun 2], []))], user = []\<rparr>)
   \<and> once observer ''x'' 2 (hooked [7]) =
       (Inr 2, \<lparr>events = [''new_listener'' \<mapsto> [(0, Plain 0)],
                          ''x'' \<mapsto> [(2, OnceWrapper ''x'' 2)]],
                calls = [(0, ([VStr ''x'', VFun 2], []))], user = []\<rparr>)"
proof -
  have hook: "events (hooked [7::hid]) ''new_listener'' = Some [(0, Plain 0)]"
    by (simp add: hooked_def)
  have l: "listeners (hooked [7::hid]) ''x'' = []"
    by (simp add: listeners_def events_get_def od_keys_def hooked_def)
  note t = new_listener_before_insert [of observer "''x''" 2 "hooked [7]" 0,
      THEN conjunct2, THEN conjunct2, THEN conjunct2, THEN conjunct2, THEN mp, OF hook]
  have a: "on observer ''x'' 2 (hooked [7]) =
       (Inr 2, \<lparr>events = [''new_listener'' \<mapsto> [(0, Plain 0)], ''x'' \<mapsto> [(2, Plain 2)]],
                calls = [(0, ([VStr ''x'', VFun 2], []))], user = []\<rparr>)"
    using t by (simp add: observer_def hooked_def)
  have b: "once observer ''x'' 2 (hooked [7]) =
       (Inr 2, \<lparr>events = [''new_listener'' \<mapsto> [(0, Plain 0)],
                          ''x'' \<mapsto> [(2, OnceWrapper ''x'' 2)]],
                calls = [(0, ([VStr ''x'', VFun 2], []))], user = []\<rparr>)"
    using t by (simp add: observer_def hooked_def)
  from hook l a b show ?thesis by blast
qed

text \<open>
  Claim C10, as the source has it. Let the \<open>new_listener\<close> listeners before one of them
  have returned, and let that one raise when the registration calls it with
  \<open>(event, f)\<close>. Then the registration (\<open>on\<close>, \<open>add_listener\<close>, the decorator of \<open>listens_to\<close>,
  \<open>once\<close>) raises the same exception, calls no later listener and writes no entry: the
  emitter is left exactly as the raising listener left it. The registry is then the
  registry of before the call when the listeners that ran were registered with \<open>on\<close> and
  no callable changes the registry. A raising listener registered with \<open>once\<close> has been
  removed from the registry before its body was called.
\<close>

theorem new_listener_failure_propagates:
  assumes snap: "od_values (events_get w ''new_listener'') = pre @ g # post"
    and before: "run_funcs beh pre ([VStr event, VFun f], []) False w = (Inr hb, wa)"
    and raises: "emit_run beh g ([VStr event, VFun f], []) wa = (Some e, wb)"
  shows "on beh event f w = (Inl e, wb)
         \<and> add_listener beh event f w = (Inl e, wb)
         \<and> listens_to beh event f w = (Inl e, wb)
         \<and> once beh event f w = (Inl e, wb)
         \<and> ((\<forall>g' \<in> set pre. \<exists>h. g' = Plain h) \<and> (\<exists>h. g = Plain h)
              \<and> (\<forall>h a reg u. fst (snd (beh h a (reg, u))) = reg)
              \<longrightarrow> events wb = events w)
         \<and> (\<forall>h. g = Plain h \<longrightarrow>
                fst (beh h ([VStr event, VFun f], []) (events wa, user wa)) = Some e)
         \<and> (\<forall>h. g = OnceWrapper ''new_listener'' h
                \<and> distinct (listeners wa ''new_listener'') \<longrightarrow>
                h \<in> set (listeners wa ''new_listener'')
                \<and> h \<notin> set (listeners (snd (remove_listener_naked ''new_listener'' h wa))
                                   ''new_listener'')
                \<and> call_user beh h ([VStr event, VFun f], [])
                      (snd (remove_listener_naked ''new_listener'' h wa)) = (Some e, wb))"
proof -
  let ?args = "([VStr event, VFun f], [])"
  have "run_funcs beh (pre @ g # post) ?args False w = (Inl e, wb)"
    using before raises by (simp add: run_funcs_append)
  with snap have "call_handlers beh ''new_listener'' ?args w = (Inl e, wb)"
    by (simp add: call_handlers_def)
  then have em: "emit beh ''new_listener'' ?args w = (Inl e, wb)"
    by (simp add: emit_def)
  then have reg: "add_event_handler beh event f v w = (Inl e, wb)" for v
    by (simp add: add_event_handler_def)
  have same: "events wb = events w"
    if plain: "\<forall>g' \<in> set pre. \<exists>h. g' = Plain h" and g: "\<exists>h. g = Plain h"
      and neutral: "\<forall>h a reg u. fst (snd (beh h a (reg, u))) = reg"
  proof -
    from run_funcs_plain_neutral [OF plain neutral before] have "events wa = events w" .
    moreover from g raises obtain h where "call_user beh h ?args wa = (Some e, wb)" by auto
    from call_user_neutral [OF neutral this] have "events wb = events wa" .
    ultimately show ?thesis by simp
  qed
  have body: "fst (beh h ?args (events wa, user wa)) = Some e" if "g = Plain h" for h
    using that raises by (auto simp: call_user_def split: prod.splits)
  have closure: "h \<in> set (listeners wa ''new_listener'')
                \<and> h \<notin> set (listeners (snd (remove_listener_naked ''new_listener'' h wa))
                                   ''new_listener'')
                \<and> call_user beh h ?args
                      (snd (remove_listener_naked ''new_listener'' h wa)) = (Some e, wb)"
    if g: "g = OnceWrapper ''new_listener'' h"
      and dist: "distinct (listeners wa ''new_listener'')" for h
  proof -
    have mem: "h \<in> set (listeners wa ''new_listener'')"
    proof (rule ccontr)
      assume "h \<notin> set (listeners wa ''new_listener'')"
      then have "emit_run beh (OnceWrapper ''new_listener'' h) ?args wa = (None, wa)"
        by (simp add: listeners_def once_g_def)
      with g raises show False by simp
    qed
    with g raises remove_listener_naked_registered(3) [OF dist mem]
      once_g_registered [OF dist mem, of beh ?args]
    show ?thesis by simp
  qed
  from reg same body closure show ?thesis
    by (simp add: on_def add_listener_def listens_to_def once_def)
qed

theorem new_listener_failure_propagates_witness:
  "od_values (events_get two_hooks ''new_listener'') = [Plain 0] @ Plain 2 # []
   \<and> run_funcs second_fails [Plain 0] ([VStr ''x'', VFun 5], []) False two_hooks =
       (Inr True, two_hooks\<lparr>calls := [(0, ([VStr ''x'', VFun 5], []))]\<rparr>)
   \<and> emit_run second_fails (Plain 2) ([VStr ''x'', VFun 5], [])
         (two_hooks\<lparr>calls := [(0, ([VStr ''x'', VFun 5], []))]\<rparr>) =
       (Some (UserError ''boom''),
        two_hooks\<lparr>calls := [(0, ([VStr ''x'', VFun 5], [])), (2, ([VStr ''x'', VFun 5], []))]\<rparr>)
   \<and> on second_fails ''x'' 5 two_hooks =
       (Inl (UserError ''boom''),
        two_hooks\<lparr>calls := [(0, ([VStr ''x'', VFun 5], [])), (2, ([VStr ''x'', VFun 5], []))]\<rparr>)
   \<and> events (two_hooks\<lparr>calls := [(0, ([VStr ''x'', VFun 5], [])),
                                    (2, ([VStr ''x'', VFun 5], []))]\<rparr>) = events two_hooks
   \<and> od_values (events_get once_hook ''new_listener'') = [] @ OnceWrapper ''new_listener'' 0 # []
   \<and> emit_run failing (OnceWrapper ''new_listener'' 0) ([VStr ''x'', VFun 5], []) once_hook =
       (Some (UserError ''boom''),
        \<lparr>events = Map.empty, calls = [(0, ([VStr ''x'', VFun 5], []))], user = ()\<rparr>)
   \<and> once failing ''x'' 5 once_hook =
       (Inl (UserError ''boom''),
        \<lparr>events = Map.empty, calls = [(0, ([VStr ''x'', VFun 5], []))], user = ()\<rparr>)
   \<and> listeners once_hook ''new_listener'' = [0]
   \<and> 0 \<notin> set (listeners (snd (remove_listener_naked ''new_listener'' 0 once_hook))
                      ''new_listener'')"
proof -
  let ?a = "([VStr ''x'', VFun 5], [])"
  have snap2: "od_values (events_get two_hooks ''new_listener'') = [Plain 0] @ Plain 2 # []"
    by (simp add: od_values_def events_get_def two_hooks_def)
  have before2: "run_funcs second_fails [Plain 0] ?a False two_hooks =
       (Inr True, two_hooks\<lparr>calls := [(0, ?a)]\<rparr>)"
    by (simp add: call_user_def second_fails_def two_hooks_def)
  have raises2: "emit_run second_fails (Plain 2) ?a (two_hooks\<lparr>calls := [(0, ?a)]\<rparr>) =
       (Some (UserError ''boom''), two_hooks\<lparr>calls := [(0, ?a), (2, ?a)]\<rparr>)"
    by (simp add: call_user_def second_fails_def two_hooks_def)
  have plain2: "\<forall>g' \<in> set [Plain 0]. \<exists>h. g' = Plain h" "\<exists>h. Plain 2 = Plain h"
    by simp_all
  have neutral2: "\<forall>h a reg u. fst (snd (second_fails h a (reg, u))) = reg"
    by (simp add: second_fails_def)
  note t2 = new_listener_failure_propagates [OF snap2 before2 raises2]
  from t2 have on2: "on second_fails ''x'' 5 two_hooks =
       (Inl (UserError ''boom''), two_hooks\<lparr>calls := [(0, ?a), (2, ?a)]\<rparr>)"
    by blast
  from t2 plain2 neutral2
  have same2: "events (two_hooks\<lparr>calls := [(0, ?a), (2, ?a)]\<rparr>) = events two_hooks"
    by blast
  have snap1: "od_values (events_get once_hook ''new_listener'')
                 = [] @ OnceWrapper ''new_listener'' 0 # []"
    by (simp add: od_values_def events_get_def once_hook_def)
  have before1: "run_funcs failing [] ?a False once_hook = (Inr False, once_hook)"
    by simp
  have raises1: "emit_run failing (OnceWrapper ''new_listener'' 0) ?a once_hook =
       (Some (UserError ''boom''), \<lparr>events = Map.empty, calls = [(0, ?a)], user = ()\<rparr>)"
    by (simp add: emitter_defs failing_def once_hook_def)
  have l1: "listeners once_hook ''new_listener'' = [0]"
    by (simp add: listeners_def events_get_def od_keys_def once_hook_def)
  note t1 = new_listener_failure_propagates [OF snap1 before1 raises1]
  from t1 have once1: "once failing ''x'' 5 once_hook =
       (Inl (UserError ''boom''), \<lparr>events = Map.empty, calls = [(0, ?a)], user = ()\<rparr>)"
    by blast
  have dist1: "distinct (listeners once_hook ''new_listener'')"
    by (simp add: l1)
  from t1 dist1
  have gone1: "0 \<notin> set (listeners (snd (remove_listener_naked ''new_listener'' 0 once_hook))
                      ''new_listener'')"
    by simp
  from snap2 before2 raises2 on2 same2 snap1 raises1 once1 l1 gone1 show ?thesis
    by blast
qed

text \<open>
  Claim C10 as stated fails on the source: with a \<open>new_listener\<close> listener registered by
  \<open>once\<close> whose body raises, \<open>on("x", f)\<close> raises, and the registry is not the one of before
  the call: the closure has removed the \<open>new_listener\<close> entry before it called the body.
\<close>

theorem registration_not_atomic_counterexample:
  "events (snd (once failing ''new_listener'' 0 (init ()))) ''new_listener''
     = Some [(0, OnceWrapper ''new_listener'' 0)]
   \<and> fst (on failing ''x'' 1 (snd (once failing ''new_listener'' 0 (init ()))))
       = Inl (UserError ''boom'')
   \<and> events (snd (on failing ''x'' 1 (snd (once failing ''new_listener'' 0 (init ())))))
         ''new_listener''
       = None"
  by (simp add: emitter_defs failing_def)


end
